theory Spec2Isabelle
  imports Main
begin

section \<open>Strings and the regular expressions of the scraper\<close>

text \<open>
  A Python \<open>str\<close> is modelled as a \<open>string\<close> whose characters are code points below
  256.  On that range \<open>\d\<close> is the ten ASCII digits, \<open>\s\<close>, \<open>str.strip\<close> and
  \<open>str.split\<close> share one whitespace class, and \<open>re.I\<close> folds the ASCII letters only.
\<close>

definition isspace :: "char \<Rightarrow> bool" where
  "isspace c = (c \<in> set [CHR 0x09, CHR 0x0A, CHR 0x0B, CHR 0x0C, CHR 0x0D,
      CHR 0x1C, CHR 0x1D, CHR 0x1E, CHR 0x1F, CHR 0x20, CHR 0x85, CHR 0xA0])"

definition isdigit :: "char \<Rightarrow> bool" where
  "isdigit c = (c \<in> set ''0123456789'')"

definition lower :: "char \<Rightarrow> char" where
  "lower c = (case map_of (zip ''ABCDEFGHIJKLMNOPQRSTUVWXYZ'' ''abcdefghijklmnopqrstuvwxyz'') c of
      Some d \<Rightarrow> d | None \<Rightarrow> c)"

text \<open>\<open>s.strip()\<close>\<close>

definition strip :: "string \<Rightarrow> string" where
  "strip s = rev (dropWhile isspace (rev (dropWhile isspace s)))"

text \<open>\<open>s.split()\<close>: the maximal runs of non-whitespace; \<open>w\<close> is the word being read.\<close>

fun split_acc :: "string \<Rightarrow> string \<Rightarrow> string list" where
  "split_acc w [] = (if w = [] then [] else [w])"
| "split_acc w (c # cs) =
     (if isspace c then (if w = [] then split_acc [] cs else w # split_acc [] cs)
      else split_acc (w @ [c]) cs)"

definition split_ws :: "string \<Rightarrow> string list" where
  "split_ws s = split_acc [] s"

text \<open>\<open>re.split(r',', s)\<close>: the pieces between the commas, empty ones included.\<close>

fun split_on :: "char \<Rightarrow> string \<Rightarrow> string \<Rightarrow> string list" where
  "split_on d w [] = [w]"
| "split_on d w (c # cs) = (if c = d then w # split_on d [] cs else split_on d (w @ [c]) cs)"

text \<open>\<open>sep.join(xs)\<close>\<close>

fun join :: "string \<Rightarrow> string list \<Rightarrow> string" where
  "join sep [] = []"
| "join sep [x] = x"
| "join sep (x # y # ys) = x @ sep @ join sep (y # ys)"

text \<open>
  A pattern is a function that tries to match at the start of a string and returns the
  captured group (empty when the pattern has none) and the text after the match.
\<close>

type_synonym pattern = "string \<Rightarrow> (string \<times> string) option"

text \<open>A literal, and a literal under \<open>re.I\<close> (given in lower case).\<close>

fun lit :: "string \<Rightarrow> string \<Rightarrow> string option" where
  "lit [] s = Some s"
| "lit (p # ps) [] = None"
| "lit (p # ps) (c # cs) = (if c = p then lit ps cs else None)"

fun lit_ci :: "string \<Rightarrow> string \<Rightarrow> string option" where
  "lit_ci [] s = Some s"
| "lit_ci (p # ps) [] = None"
| "lit_ci (p # ps) (c # cs) = (if lower c = p then lit_ci ps cs else None)"

text \<open>
  \<open>\d+\.\d+\<close>: both \<open>\d+\<close> are greedy, and giving back digits never helps, since the
  character after a shorter run is again a digit.
\<close>

definition match_num :: pattern where
  "match_num s =
     (let d1 = takeWhile isdigit s; r1 = dropWhile isdigit s in
      if d1 = [] then None
      else (case r1 of
              [] \<Rightarrow> None
            | c # r2 \<Rightarrow>
                if c \<noteq> CHR ''.'' then None
                else (let d2 = takeWhile isdigit r2; r3 = dropWhile isdigit r2 in
                      if d2 = [] then None else Some (d1 @ ''.'' @ d2, r3))))"

text \<open>\<open>/abs/\d+\.\d+\<close>\<close>

definition pat_abs :: pattern where
  "pat_abs s = (case lit ''/abs/'' s of None \<Rightarrow> None | Some r \<Rightarrow> match_num r)"

text \<open>\<open>/(\d+\.\d+)\<close>, group 1 captured\<close>

definition pat_id :: pattern where
  "pat_id s = (case lit ''/'' s of None \<Rightarrow> None | Some r \<Rightarrow> match_num r)"

text \<open>\<open>Title:\s*\<close>, \<open>Abstract:\s*\<close> and \<open>Authors?:\s*\<close>, each under \<open>re.I\<close>\<close>

definition pat_title :: pattern where
  "pat_title s = (case lit_ci ''title:'' s of None \<Rightarrow> None
     | Some r \<Rightarrow> Some ([], dropWhile isspace r))"

definition pat_abstract :: pattern where
  "pat_abstract s = (case lit_ci ''abstract:'' s of None \<Rightarrow> None
     | Some r \<Rightarrow> Some ([], dropWhile isspace r))"

definition pat_authors :: pattern where
  "pat_authors s = (case lit_ci ''author'' s of None \<Rightarrow> None
     | Some r \<Rightarrow>
         (case lit_ci ''s:'' r of
            Some r' \<Rightarrow> Some ([], dropWhile isspace r')
          | None \<Rightarrow>
              (case lit_ci '':'' r of None \<Rightarrow> None
               | Some r' \<Rightarrow> Some ([], dropWhile isspace r'))))"

text \<open>\<open>re.search(pat, s)\<close>: the match at the leftmost position where the pattern matches.\<close>

fun re_search :: "pattern \<Rightarrow> string \<Rightarrow> (string \<times> string) option" where
  "re_search pat [] = pat []"
| "re_search pat (c # cs) =
     (case pat (c # cs) of Some m \<Rightarrow> Some m | None \<Rightarrow> re_search pat cs)"

text \<open>
  \<open>re.sub(pat, '', s)\<close>: every non-overlapping match is deleted, scanning from the left;
  after a match the scan goes on behind it.  An empty match deletes nothing and the scan
  moves one character on.
\<close>

function re_sub :: "pattern \<Rightarrow> string \<Rightarrow> string" where
  "re_sub pat [] = []"
| "re_sub pat (c # cs) =
     (case pat (c # cs) of
        None \<Rightarrow> c # re_sub pat cs
      | Some (g, r) \<Rightarrow> if length r \<le> length cs then re_sub pat r else c # re_sub pat cs)"
  by pat_completeness auto
termination
  by (relation "measure (\<lambda>(pat, s). length s)") auto

text \<open>A pattern that is one literal, as \<open>/search/\<close>, and its \<open>re.I\<close> form.\<close>

definition pat_lit :: "string \<Rightarrow> pattern" where
  "pat_lit l s = (case lit l s of None \<Rightarrow> None | Some r \<Rightarrow> Some ([], r))"

definition pat_lit_ci :: "string \<Rightarrow> pattern" where
  "pat_lit_ci l s = (case lit_ci l s of None \<Rightarrow> None | Some r \<Rightarrow> Some ([], r))"

section \<open>The parsed document\<close>

text \<open>
  The tree BeautifulSoup builds: a tag has a name, its attributes (a dict, read here with
  \<open>map_of\<close>) and its contents; a text node is a \<open>NavigableString\<close>; a \<open>Comment\<close>
  stands for the string nodes that \<open>get_text\<close> leaves out.  An element is referred to by
  its path from the root of the tree it is searched in.
\<close>

datatype node =
    Tag string "(string \<times> string) list" "node list"
  | NavigableString string
  | Comment string

type_synonym path = "nat list"

fun contents :: "node \<Rightarrow> node list" where
  "contents (Tag n a ks) = ks"
| "contents (NavigableString s) = []"
| "contents (Comment s) = []"

fun is_named :: "string \<Rightarrow> node \<Rightarrow> bool" where
  "is_named nm (Tag n a ks) = (n = nm)"
| "is_named nm (NavigableString s) = False"
| "is_named nm (Comment s) = False"

text \<open>\<open>tag.get(key)\<close>\<close>

fun attr :: "node \<Rightarrow> string \<Rightarrow> string option" where
  "attr (Tag n a ks) key = map_of a key"
| "attr (NavigableString s) key = None"
| "attr (Comment s) key = None"

text \<open>\<open>class_=cls\<close>: one of the whitespace-separated classes of the tag is \<open>cls\<close>.\<close>

definition has_class :: "string \<Rightarrow> node \<Rightarrow> bool" where
  "has_class cls k = (case attr k ''class'' of None \<Rightarrow> False | Some v \<Rightarrow> cls \<in> set (split_ws v))"

text \<open>\<open>href=re.compile(pat)\<close>: the tag has an \<open>href\<close> in which the pattern is found.\<close>

definition href_search :: "pattern \<Rightarrow> node \<Rightarrow> bool" where
  "href_search pat k = (case attr k ''href'' of None \<Rightarrow> False | Some v \<Rightarrow> re_search pat v \<noteq> None)"

text \<open>\<open>tag.get('href', '')\<close>\<close>

definition href_of :: "node \<Rightarrow> string" where
  "href_of k = (case attr k ''href'' of None \<Rightarrow> [] | Some v \<Rightarrow> v)"

text \<open>\<open>tag.get_text()\<close> and \<open>tag.get_text(strip=True)\<close>\<close>

fun get_text :: "node \<Rightarrow> string" where
  "get_text (Tag n a ks) = concat (map get_text ks)"
| "get_text (NavigableString s) = s"
| "get_text (Comment s) = []"

fun stripped_strings :: "node \<Rightarrow> string list" where
  "stripped_strings (Tag n a ks) = concat (map stripped_strings ks)"
| "stripped_strings (NavigableString s) = (if strip s = [] then [] else [strip s])"
| "stripped_strings (Comment s) = []"

definition get_text_strip :: "node \<Rightarrow> string" where
  "get_text_strip k = concat (stripped_strings k)"

text \<open>\<open>tag.string\<close>: the only child when it is a string, that child's \<open>.string\<close> when it is a tag.\<close>

fun string_of :: "node \<Rightarrow> string option" where
  "string_of (Tag n a [k]) = string_of k"
| "string_of (Tag n a ks) = None"
| "string_of (NavigableString s) = Some s"
| "string_of (Comment s) = Some s"

text \<open>\<open>string=re.compile(pat)\<close>\<close>

definition string_search :: "pattern \<Rightarrow> node \<Rightarrow> bool" where
  "string_search pat k = (case string_of k of None \<Rightarrow> False | Some v \<Rightarrow> re_search pat v \<noteq> None)"

fun node_at :: "node \<Rightarrow> path \<Rightarrow> node option" where
  "node_at k [] = Some k"
| "node_at k (i # p) = (if i < length (contents k) then node_at (contents k ! i) p else None)"

text \<open>\<open>tag.descendants\<close>: every node below the tag in document order, with its path.\<close>

fun descendants :: "node \<Rightarrow> (path \<times> node) list"
  and kids_descendants :: "nat \<Rightarrow> node list \<Rightarrow> (path \<times> node) list" where
  "descendants (Tag n a ks) = kids_descendants 0 ks"
| "descendants (NavigableString s) = []"
| "descendants (Comment s) = []"
| "kids_descendants i [] = []"
| "kids_descendants i (k # ks) =
     ([i], k) # map (\<lambda>(p, d). (i # p, d)) (descendants k) @ kids_descendants (Suc i) ks"

text \<open>\<open>tag.find_all(...)\<close> and \<open>tag.find(...)\<close>, the search criteria as a predicate.\<close>

definition find_all :: "(node \<Rightarrow> bool) \<Rightarrow> node \<Rightarrow> (path \<times> node) list" where
  "find_all P k = filter (\<lambda>(p, d). P d) (descendants k)"

definition find_tag :: "(node \<Rightarrow> bool) \<Rightarrow> node \<Rightarrow> (path \<times> node) option" where
  "find_tag P k = (case find_all P k of [] \<Rightarrow> None | x # xs \<Rightarrow> Some x)"

text \<open>
  \<open>tag.find_next_sibling(nm)\<close> for the element at path \<open>p\<close>: the first of the later
  children of its parent that is a tag named \<open>nm\<close>.
\<close>

definition find_next_sibling :: "node \<Rightarrow> path \<Rightarrow> string \<Rightarrow> (path \<times> node) option" where
  "find_next_sibling soup p nm =
     (if p = [] then None
      else (case node_at soup (butlast p) of
              None \<Rightarrow> None
            | Some parent \<Rightarrow>
                (case filter (\<lambda>j. is_named nm (contents parent ! j))
                        [Suc (last p) ..< length (contents parent)] of
                   [] \<Rightarrow> None
                 | j # js \<Rightarrow> Some (butlast p @ [j], contents parent ! j))))"

section \<open>arxiv_scraper.py\<close>

text \<open>The dict \<open>paper\<close>; the key \<open>arxiv_id\<close> is set only when the second regex matches.\<close>

record paper =
  arxiv_id :: "string option"
  title :: string
  authors :: "string list"

text \<open>Lines 76 and 78: delete the label, strip, and join the words with single spaces.\<close>

definition clean_title :: "string \<Rightarrow> string" where
  "clean_title t = join '' '' (split_ws (strip (re_sub pat_title t)))"

text \<open>Lines 70 to 88; \<open>None\<close> is the \<open>continue\<close> of line 88.\<close>

definition title_of_dd :: "node \<Rightarrow> string option" where
  "title_of_dd dd =
     (case find_tag (\<lambda>k. is_named ''div'' k \<and> has_class ''list-title'' k) dd of
        Some (q, title_div) \<Rightarrow> Some (clean_title (get_text title_div))
      | None \<Rightarrow>
          (case find_tag (\<lambda>k. is_named ''span'' k \<and> has_class ''descriptor'' k \<and>
                              string_search (pat_lit_ci ''title:'') k) dd of
             Some (q, title_span) \<Rightarrow>
               (case node_at dd (butlast q) of
                  Some parent \<Rightarrow> Some (clean_title (get_text parent))
                | None \<Rightarrow> None)
           | None \<Rightarrow> None))"

text \<open>Lines 100 to 109, for the \<open>authors_div\<close> found.\<close>

definition authors_of_div :: "node \<Rightarrow> string list" where
  "authors_of_div authors_div =
     (let author_links =
            find_all (\<lambda>k. is_named ''a'' k \<and> href_search (pat_lit ''/search/'') k) authors_div
      in if author_links \<noteq> [] then map (\<lambda>(p, link). get_text_strip link) author_links
         else (let authors_text = strip (re_sub pat_authors (get_text authors_div))
               in if authors_text \<noteq> []
                  then map strip (filter (\<lambda>a. strip a \<noteq> [])
                         (split_on CHR '','' [] authors_text))
                  else []))"

text \<open>Lines 96 to 98.\<close>

definition authors_of_dd :: "node \<Rightarrow> string list" where
  "authors_of_dd dd =
     (case find_tag (\<lambda>k. is_named ''div'' k \<and> has_class ''list-authors'' k) dd of
        None \<Rightarrow> []
      | Some (q, authors_div) \<Rightarrow> authors_of_div authors_div)"

text \<open>
  The body of the loop over \<open>dt_tags\<close> (lines 51 to 112) for the \<open>dt\<close> at path \<open>p\<close>:
  the record appended, or \<open>None\<close> when the iteration ends in a \<open>continue\<close>.
\<close>

definition scrape_dt :: "node \<Rightarrow> path \<times> node \<Rightarrow> paper option" where
  "scrape_dt soup pd =
     (case pd of (p, dt) \<Rightarrow>
       (case find_tag (\<lambda>k. is_named ''a'' k \<and> href_search pat_abs k) dt of
          None \<Rightarrow> None
        | Some (q, arxiv_link) \<Rightarrow>
            (let href = href_of arxiv_link;
                 match = re_search pat_id href
             in (case find_next_sibling soup p ''dd'' of
                   None \<Rightarrow> None
                 | Some (pdd, dd) \<Rightarrow>
                     (case title_of_dd dd of
                        None \<Rightarrow> None
                      | Some t \<Rightarrow>
                          if t = [] \<or> length t < 5 then None
                          else Some \<lparr>arxiv_id = map_option fst match, title = t,
                                     authors = authors_of_dd dd\<rparr>)))))"

fun scrape_loop :: "node \<Rightarrow> (path \<times> node) list \<Rightarrow> paper list \<Rightarrow> paper list" where
  "scrape_loop soup [] papers = papers"
| "scrape_loop soup (dt # dts) papers =
     (case scrape_dt soup dt of
        None \<Rightarrow> scrape_loop soup dts papers
      | Some paper \<Rightarrow> scrape_loop soup dts (papers @ [paper]))"

text \<open>Lines 41 to 114: the records of one parsed page.\<close>

definition papers_of_soup :: "node \<Rightarrow> paper list" where
  "papers_of_soup soup = scrape_loop soup (find_all (is_named ''dt'') soup) []"

text \<open>
  \<open>session\<close> stands for lines 34 to 41: the parsed page of a URL, or \<open>None\<close> when
  \<open>session.get\<close> or \<open>raise_for_status\<close> raises a \<open>RequestException\<close>.
\<close>

definition get_papers_from_page :: "(string \<Rightarrow> node option) \<Rightarrow> string \<Rightarrow> paper list" where
  "get_papers_from_page session url =
     (case session url of None \<Rightarrow> [] | Some soup \<Rightarrow> papers_of_soup soup)"

text \<open>The decimal numeral of an f-string.\<close>

fun str_nat :: "nat \<Rightarrow> string" where
  "str_nat n = (if n < 10 then [''0123456789'' ! n]
                else str_nat (n div 10) @ [''0123456789'' ! (n mod 10)])"

declare str_nat.simps [simp del]

text \<open>Lines 139 to 142.\<close>

definition page_url :: "string \<Rightarrow> nat \<Rightarrow> string" where
  "page_url base_url skip =
     (if skip = 0 then base_url
      else base_url @ ''?skip='' @ str_nat skip @ ''&show='' @ str_nat 50)"

text \<open>
  The \<open>while True\<close> loop of \<open>scrape_all_papers\<close> (lines 137 to 161).  The state is
  \<open>skip\<close>, \<open>all_papers\<close> and the list of the URLs requested so far; a loop that never
  breaks has the value \<open>None\<close>.
\<close>

partial_function (option) scrape_pages ::
  "(string \<Rightarrow> node option) \<Rightarrow> string \<Rightarrow> nat \<Rightarrow> paper list \<Rightarrow> string list
     \<Rightarrow> (paper list \<times> string list) option" where
  "scrape_pages session base_url skip all_papers requests =
     (let url = page_url base_url skip;
          papers = get_papers_from_page session url
      in if papers = [] then Some (all_papers, requests @ [url])
         else if length papers < 50 then Some (all_papers @ papers, requests @ [url])
         else scrape_pages session base_url (skip + 50) (all_papers @ papers) (requests @ [url]))"

definition scrape_all_papers ::
  "(string \<Rightarrow> node option) \<Rightarrow> string \<Rightarrow> (paper list \<times> string list) option" where
  "scrape_all_papers session base_url = scrape_pages session base_url 0 [] []"

section \<open>extract_links_and_abstracts.py\<close>

text \<open>
  \<open>https://arxiv.org/html/\d+\.\d+v\d+\<close>: the dot of \<open>arxiv.org\<close> is not escaped and
  matches any character but a newline.
\<close>

definition pat_html_abs :: pattern where
  "pat_html_abs s =
     (case lit ''https://arxiv'' s of
        None \<Rightarrow> None
      | Some r0 \<Rightarrow>
          (case r0 of
             [] \<Rightarrow> None
           | c # r1 \<Rightarrow>
               if c = CHR 0x0A then None
               else (case lit ''org/html/'' r1 of
                       None \<Rightarrow> None
                     | Some r2 \<Rightarrow>
                         (case match_num r2 of
                            None \<Rightarrow> None
                          | Some (g, r3) \<Rightarrow>
                              (case r3 of
                                 [] \<Rightarrow> None
                               | v # r4 \<Rightarrow>
                                   if v \<noteq> CHR ''v'' \<or> takeWhile isdigit r4 = [] then None
                                   else Some ([], dropWhile isdigit r4))))))"

text \<open>\<open>/html/\d+\.\d+\<close>\<close>

definition pat_html :: pattern where
  "pat_html s = (case lit ''/html/'' s of None \<Rightarrow> None | Some r \<Rightarrow> match_num r)"

text \<open>
  \<open>get_abstract\<close>, lines 41 to 55, on the parsed abstract page: \<open>None\<close> is the
  \<open>return None\<close> of line 55.
\<close>

definition abstract_of_page :: "node \<Rightarrow> string option" where
  "abstract_of_page soup =
     (case find_tag (\<lambda>k. is_named ''blockquote'' k \<and> has_class ''abstract'' k) soup of
        Some (q, abstract_block) \<Rightarrow>
          Some (strip (re_sub pat_abstract (get_text abstract_block)))
      | None \<Rightarrow>
          (case find_tag (\<lambda>k. is_named ''blockquote'' k \<and>
                              string_search (pat_lit_ci ''abstract'') k) soup of
             Some (q, abstract_block) \<Rightarrow>
               Some (strip (re_sub pat_abstract (get_text abstract_block)))
           | None \<Rightarrow> None))"

text \<open>
  \<open>get_abstract\<close>: a \<open>RequestException\<close> of the request (\<open>session\<close> gives \<open>None\<close>)
  is caught on line 57 and \<open>None\<close> is returned.
\<close>

definition get_abstract :: "(string \<Rightarrow> node option) \<Rightarrow> string \<Rightarrow> string option" where
  "get_abstract session aid =
     (case session (''https://arxiv.org/abs/'' @ aid) of
        None \<Rightarrow> None
      | Some soup \<Rightarrow> abstract_of_page soup)"

text \<open>
  Lines 102 to 113, and again lines 193 to 204: the link to the HTML rendering found in
  the \<open>dt\<close>, if any.
\<close>

definition html_link_of_dt :: "node \<Rightarrow> string option" where
  "html_link_of_dt dt =
     (case find_tag (\<lambda>k. is_named ''a'' k \<and> href_search pat_html_abs k) dt of
        Some (q, html_link_tag) \<Rightarrow>
          Some (href_of html_link_tag)
      | None \<Rightarrow>
          (case find_tag (\<lambda>k. is_named ''a'' k \<and> href_search pat_html k) dt of
             Some (q, html_link_tag) \<Rightarrow>
               (let href = (href_of html_link_tag)
                in if lit ''/'' href \<noteq> None then Some (''https://arxiv.org'' @ href)
                   else Some href)
           | None \<Rightarrow> None))"

text \<open>The dict \<open>paper\<close> of \<open>extract_papers_from_html\<close>; \<open>html_link\<close> may be missing.\<close>

record html_paper =
  hp_arxiv_id :: string
  hp_abs_link :: string
  hp_html_link :: "string option"
  hp_title :: string

text \<open>The body of the loop of \<open>extract_papers_from_html\<close>, lines 85 to 133.\<close>

definition extract_dt :: "node \<Rightarrow> path \<times> node \<Rightarrow> html_paper option" where
  "extract_dt soup pd =
     (case pd of (p, dt) \<Rightarrow>
       (case find_tag (\<lambda>k. is_named ''a'' k \<and> href_search pat_abs k) dt of
          None \<Rightarrow> None
        | Some (q, arxiv_link) \<Rightarrow>
            (case re_search pat_id (href_of arxiv_link) of
               None \<Rightarrow> None
             | Some (aid, r) \<Rightarrow>
                 (case find_next_sibling soup p ''dd'' of
                    None \<Rightarrow> None
                  | Some (pdd, dd) \<Rightarrow>
                      (case find_tag (\<lambda>k. is_named ''div'' k \<and> has_class ''list-title'' k) dd of
                         None \<Rightarrow> None
                       | Some (qt, title_div) \<Rightarrow>
                           (let t = clean_title (get_text title_div)
                            in if t = [] \<or> length t < 5 then None
                               else Some \<lparr>hp_arxiv_id = aid,
                                          hp_abs_link = ''https://arxiv.org/abs/'' @ aid,
                                          hp_html_link = html_link_of_dt dt,
                                          hp_title = t\<rparr>))))))"

fun extract_loop :: "node \<Rightarrow> (path \<times> node) list \<Rightarrow> html_paper list \<Rightarrow> html_paper list" where
  "extract_loop soup [] papers = papers"
| "extract_loop soup (dt # dts) papers =
     (case extract_dt soup dt of
        None \<Rightarrow> extract_loop soup dts papers
      | Some paper \<Rightarrow> extract_loop soup dts (papers @ [paper]))"

text \<open>\<open>extract_papers_from_html\<close> on the parsed file.\<close>

definition extract_papers_from_html :: "node \<Rightarrow> html_paper list" where
  "extract_papers_from_html soup = extract_loop soup (find_all (is_named ''dt'') soup) []"

subsection \<open>Changing the tree\<close>

text \<open>The element at a path replaced by \<open>f\<close> of it; \<open>tag.insert(i, new)\<close>; \<open>tag.append(new)\<close>.\<close>

fun update_at :: "path \<Rightarrow> (node \<Rightarrow> node) \<Rightarrow> node \<Rightarrow> node" where
  "update_at [] f k = f k"
| "update_at (i # p) f (Tag n a ks) =
     (if i < length ks then Tag n a (ks[i := update_at p f (ks ! i)]) else Tag n a ks)"
| "update_at (i # p) f (NavigableString s) = NavigableString s"
| "update_at (i # p) f (Comment s) = Comment s"

fun tag_insert :: "nat \<Rightarrow> node \<Rightarrow> node \<Rightarrow> node" where
  "tag_insert i new (Tag n a ks) = Tag n a (take i ks @ [new] @ drop i ks)"
| "tag_insert i new (NavigableString s) = NavigableString s"
| "tag_insert i new (Comment s) = Comment s"

fun tag_append :: "node \<Rightarrow> node \<Rightarrow> node" where
  "tag_append new (Tag n a ks) = Tag n a (ks @ [new])"
| "tag_append new (NavigableString s) = NavigableString s"
| "tag_append new (Comment s) = Comment s"

text \<open>
  \<open>==\<close> on elements, as \<open>list.index\<close> uses it: two tags are equal when they have the
  same name, the same attribute dict and pairwise equal contents; string nodes, comments
  among them, are compared as the strings they are; a tag and a string node are unequal.
  The parser keeps the value of \<open>class\<close> and of a few other attributes as the list of
  its whitespace-separated tokens, and such values are compared as these lists.
\<close>

definition multi_valued :: "string \<Rightarrow> string \<Rightarrow> bool" where
  "multi_valued n key =
     (key \<in> set [''class'', ''accesskey'', ''dropzone'']
      \<or> (n, key) \<in> set [(''a'', ''rel''), (''a'', ''rev''), (''link'', ''rel''), (''link'', ''rev''),
                          (''td'', ''headers''), (''th'', ''headers''),
                          (''form'', ''accept-charset''), (''object'', ''archive''),
                          (''area'', ''rel''), (''icon'', ''sizes''), (''iframe'', ''sandbox''),
                          (''output'', ''for'')])"

definition attr_value :: "string \<Rightarrow> string \<Rightarrow> string \<Rightarrow> string list" where
  "attr_value n key v = (if multi_valued n key then split_ws v else [v])"

definition dict_eq :: "string \<Rightarrow> (string \<times> string) list \<Rightarrow> (string \<times> string) list \<Rightarrow> bool" where
  "dict_eq n a b =
     (\<forall>key \<in> set (map fst a @ map fst b).
        map_option (attr_value n key) (map_of a key) = map_option (attr_value n key) (map_of b key))"

fun node_eq :: "node \<Rightarrow> node \<Rightarrow> bool" and nodes_eq :: "node list \<Rightarrow> node list \<Rightarrow> bool" where
  "node_eq (Tag n a ks) (Tag n' a' ks') = (n = n' \<and> dict_eq n a a' \<and> nodes_eq ks ks')"
| "node_eq (NavigableString s) (NavigableString s') = (s = s')"
| "node_eq (NavigableString s) (Comment s') = (s = s')"
| "node_eq (Comment s) (NavigableString s') = (s = s')"
| "node_eq (Comment s) (Comment s') = (s = s')"
| "node_eq k k' = False"
| "nodes_eq [] [] = True"
| "nodes_eq (k # ks) (k' # ks') = (node_eq k k' \<and> nodes_eq ks ks')"
| "nodes_eq ks ks' = False"

datatype error = ValueError

text \<open>\<open>xs.index(x)\<close>: the first position holding an equal element, or a \<open>ValueError\<close>.\<close>

fun index_of :: "node \<Rightarrow> node list \<Rightarrow> error + nat" where
  "index_of x [] = Inl ValueError"
| "index_of x (k # ks) =
     (if node_eq k x then Inr 0
      else (case index_of x ks of Inl e \<Rightarrow> Inl e | Inr i \<Rightarrow> Inr (Suc i)))"

text \<open>Lines 219 to 228: the new \<open>abstract_div\<close>.\<close>

definition new_abstract_div :: "string \<Rightarrow> node" where
  "new_abstract_div abstract =
     Tag ''div'' [(''class'', ''list-abstract'')]
       [Tag ''span'' [(''class'', ''descriptor'')] [NavigableString ''Abstract:''],
        NavigableString ('' '' @ abstract)]"

text \<open>
  Lines 231 to 239: the detail element \<open>dd\<close> after \<open>abstract_div\<close> is put into it.
  \<open>meta_div.find\<close> searches all descendants of \<open>meta_div\<close>, \<open>contents.index\<close> its
  children only.
\<close>

definition splice_abstract :: "node \<Rightarrow> node \<Rightarrow> error + node" where
  "splice_abstract dd abstract_div =
     (case find_tag (\<lambda>k. is_named ''div'' k \<and> has_class ''meta'' k) dd of
        Some (qm, meta_div) \<Rightarrow>
          (case find_tag (\<lambda>k. is_named ''div'' k \<and> has_class ''list-subjects'' k) meta_div of
             Some (qs, subjects_div) \<Rightarrow>
               (case index_of subjects_div (contents meta_div) of
                  Inl e \<Rightarrow> Inl e
                | Inr i \<Rightarrow> Inr (update_at qm (tag_insert i abstract_div) dd))
           | None \<Rightarrow> Inr (update_at qm (tag_append abstract_div) dd))
      | None \<Rightarrow> Inr (tag_append abstract_div dd))"

text \<open>
  The text of the documents is modelled on the code points below 256; the literals of
  lines 246 and 280 to 296 lie beyond them.  The strings of \<open>paper_data\<close> and of the
  digest are therefore lists of code points of any size (Python's \<open>ord\<close> of each
  character), and \<open>code_points\<close> carries a string of the document over.
\<close>

definition code_points :: "string \<Rightarrow> int list" where
  "code_points s = map of_char s"

text \<open>The dict \<open>paper_data\<close> of lines 242 to 247.\<close>

record paper_data =
  pd_title :: "int list"
  pd_html_link :: "int list"
  pd_abs_link :: "int list"
  pd_abstract :: "int list"

text \<open>The placeholder of line 246, eight characters between brackets of full width.\<close>

definition placeholder :: "int list" where
  "placeholder = [0xFF08, 0x672A, 0x83B7, 0x53D6, 0x5230, 0x6458, 0x8981, 0xFF09]"

text \<open>Python's truth value of \<open>abstract\<close>: neither \<open>None\<close> nor the empty string.\<close>

fun truthy :: "string option \<Rightarrow> bool" where
  "truthy None = False"
| "truthy (Some s) = (s \<noteq> [])"

definition make_paper_data :: "string \<Rightarrow> string option \<Rightarrow> string \<Rightarrow> string option \<Rightarrow> paper_data" where
  "make_paper_data t html_link aid abstract =
     \<lparr>pd_title = code_points t,
      pd_html_link =
        code_points (if truthy html_link then (case html_link of Some l \<Rightarrow> l | None \<Rightarrow> [])
                     else ''https://arxiv.org/html/'' @ aid @ ''v1''),
      pd_abs_link = code_points (''https://arxiv.org/abs/'' @ aid),
      pd_abstract = (if truthy abstract
                     then code_points (case abstract of Some x \<Rightarrow> x | None \<Rightarrow> [])
                     else placeholder)\<rparr>"

text \<open>
  Lines 166 to 204 for one \<open>dt\<close>: the identifier, the title, the HTML link and the
  detail element with its path, or \<open>None\<close> when the iteration ends in a \<open>continue\<close>.
\<close>

definition derive_dt ::
  "node \<Rightarrow> path \<times> node \<Rightarrow> (string \<times> string \<times> string option \<times> path \<times> node) option" where
  "derive_dt soup pd =
     (case pd of (p, dt) \<Rightarrow>
       (case find_tag (\<lambda>k. is_named ''a'' k \<and> href_search pat_abs k) dt of
          None \<Rightarrow> None
        | Some (q, arxiv_link) \<Rightarrow>
            (case re_search pat_id (href_of arxiv_link) of
               None \<Rightarrow> None
             | Some (aid, r) \<Rightarrow>
                 (case find_next_sibling soup p ''dd'' of
                    None \<Rightarrow> None
                  | Some (pdd, dd) \<Rightarrow>
                      (case find_tag (\<lambda>k. is_named ''div'' k \<and> has_class ''list-title'' k) dd of
                         None \<Rightarrow> None
                       | Some (qt, title_div) \<Rightarrow>
                           Some (aid, clean_title (get_text title_div), html_link_of_dt dt,
                                 pdd, dd))))))"

text \<open>
  The state of the loop of \<open>add_abstracts_to_html\<close>: the tree, \<open>papers_data\<close>,
  \<open>processed_count\<close>, the identifiers \<open>get_abstract\<close> was called with, and the number
  of calls of \<open>time.sleep(0.5)\<close>.
\<close>

record enrich_state =
  es_soup :: node
  papers_data :: "paper_data list"
  processed_count :: nat
  fetched :: "string list"
  sleeps :: nat

text \<open>
  One iteration of the loop, lines 165 to 252.  \<open>dt_tags\<close> holds the \<open>dt\<close> elements
  themselves; the loop only ever adds \<open>abstract_div\<close>s, which hold no \<open>dt\<close>, so the
  element the \<open>k\<close>-th iteration works on is the \<open>k\<close>-th \<open>dt\<close> of the tree as it is then.
\<close>

definition enrich_dt ::
  "(string \<Rightarrow> node option) \<Rightarrow> nat \<Rightarrow> enrich_state \<Rightarrow> error + enrich_state" where
  "enrich_dt session k st =
     (case drop k (find_all (is_named ''dt'') (es_soup st)) of
        [] \<Rightarrow> Inr st
      | pd # rest \<Rightarrow>
          (case derive_dt (es_soup st) pd of
             None \<Rightarrow> Inr st
           | Some (aid, t, html_link, pdd, dd) \<Rightarrow>
               (case find_tag (\<lambda>k. is_named ''div'' k \<and> has_class ''list-abstract'' k) dd of
                  Some (qa, existing_abstract) \<Rightarrow>
                    (let abstract = strip (re_sub pat_abstract (get_text existing_abstract))
                     in Inr (st\<lparr>papers_data :=
                                   papers_data st @ [make_paper_data t html_link aid (Some abstract)],
                                 processed_count := processed_count st + 1\<rparr>))
                | None \<Rightarrow>
                    (let abstract = get_abstract session aid
                     in (case (if truthy abstract
                               then splice_abstract dd
                                      (new_abstract_div (case abstract of Some x \<Rightarrow> x | None \<Rightarrow> []))
                               else Inr dd) of
                           Inl e \<Rightarrow> Inl e
                         | Inr dd' \<Rightarrow>
                             Inr (st\<lparr>es_soup := update_at pdd (\<lambda>d. dd') (es_soup st),
                                     papers_data :=
                                       papers_data st @ [make_paper_data t html_link aid abstract],
                                     processed_count := processed_count st + 1,
                                     fetched := fetched st @ [aid],
                                     sleeps := sleeps st + 1\<rparr>))))))"

fun enrich_loop ::
  "(string \<Rightarrow> node option) \<Rightarrow> nat list \<Rightarrow> enrich_state \<Rightarrow> error + enrich_state" where
  "enrich_loop session [] st = Inr st"
| "enrich_loop session (k # ks) st =
     (case enrich_dt session k st of
        Inl e \<Rightarrow> Inl e
      | Inr st' \<Rightarrow> enrich_loop session ks st')"

text \<open>
  \<open>add_abstracts_to_html\<close> on the parsed file, up to line 254: the final state, whose
  tree is written to the output file and whose \<open>papers_data\<close> goes to \<open>save_to_txt\<close>,
  or the exception that ends the run.
\<close>

definition add_abstracts_to_html ::
  "(string \<Rightarrow> node option) \<Rightarrow> node \<Rightarrow> error + enrich_state" where
  "add_abstracts_to_html session html =
     enrich_loop session [0 ..< length (find_all (is_named ''dt'') html)]
       \<lparr>es_soup = html, papers_data = [], processed_count = 0, fetched = [], sleeps = 0\<rparr>"

text \<open>
  The file the driver writes on line 261, as a next run reads and parses it on lines 152
  to 155.  The file is written as it is where \<open>os.linesep\<close> is \<open>\n\<close>; reading in text
  mode turns every \<open>\r\n\<close>, and every \<open>\r\<close> that is left, into \<open>\n\<close>.  The parser is
  taken to rebuild the tree that was serialised.  (The value of \<open>class\<close> is written
  with one blank between its tokens; the driver reads it by its tokens only, so the
  value is kept as it was.)
\<close>

fun universal_newlines :: "string \<Rightarrow> string" where
  "universal_newlines [] = []"
| "universal_newlines [c] = [if c = CHR 0x0D then CHR 0x0A else c]"
| "universal_newlines (c # d # cs) =
     (if c = CHR 0x0D
      then CHR 0x0A # (if d = CHR 0x0A then universal_newlines cs else universal_newlines (d # cs))
      else c # universal_newlines (d # cs))"

fun read_back :: "node \<Rightarrow> node" where
  "read_back (Tag n a ks) =
     Tag n (map (\<lambda>(key, v). (key, universal_newlines v)) a) (map read_back ks)"
| "read_back (NavigableString s) = NavigableString (universal_newlines s)"
| "read_back (Comment s) = Comment (universal_newlines s)"

text \<open>
  Two runs of the driver, the second on the file that the first has written;
  \<open>session\<close> and \<open>session'\<close> are the network as the first and the second run find it.
\<close>

definition run_twice ::
  "(string \<Rightarrow> node option) \<Rightarrow> (string \<Rightarrow> node option) \<Rightarrow> node
     \<Rightarrow> error + enrich_state \<times> enrich_state" where
  "run_twice session session' html =
     (case add_abstracts_to_html session html of
        Inl e \<Rightarrow> Inl e
      | Inr st1 \<Rightarrow>
          (case add_abstracts_to_html session' (read_back (es_soup st1)) of
             Inl e \<Rightarrow> Inl e
           | Inr st2 \<Rightarrow> Inr (st1, st2)))"

text \<open>
  What \<open>save_to_txt\<close> writes for the \<open>i\<close>-th paper, lines 287 to 297: the title
  line, a rule, the line of the HTML link when the link is not empty, the line of the
  abstract page, the heading of the abstract, the abstract, and a closing rule.
\<close>

definition label_html :: "int list" where
  "label_html = [0x48, 0x54, 0x4D, 0x4C, 0x94FE, 0x63A5, 0x3A, 0x20]"

definition label_abs :: "int list" where
  "label_abs = [0x6458, 0x8981, 0x9875, 0x9762, 0x3A, 0x20]"

definition label_abstract :: "int list" where
  "label_abstract = [0x0A, 0x6458, 0x8981, 0x3A, 0x0A]"

definition txt_block :: "nat \<Rightarrow> paper_data \<Rightarrow> int list" where
  "txt_block i paper =
     code_points (''['' @ str_nat i @ ''] '') @ pd_title paper @ [0x0A]
     @ replicate 80 0x2D @ [0x0A]
     @ (if pd_html_link paper \<noteq> [] then label_html @ pd_html_link paper @ [0x0A] else [])
     @ label_abs @ pd_abs_link paper @ [0x0A]
     @ label_abstract @ pd_abstract paper @ [0x0A]
     @ [0x0A] @ replicate 80 0x3D @ [0x0A, 0x0A]"

text \<open>The loop of \<open>save_to_txt\<close>, lines 286 to 297, numbering from \<open>i\<close>.\<close>

fun txt_blocks :: "nat \<Rightarrow> paper_data list \<Rightarrow> int list" where
  "txt_blocks i [] = []"
| "txt_blocks i (paper # papers) = txt_block i paper @ txt_blocks (Suc i) papers"

text \<open>
  The head of the digest, lines 280 to 284; \<open>now\<close> is the time stamp that
  \<open>datetime.now().strftime\<close> gives and \<open>n\<close> is \<open>len(papers_data)\<close>.
\<close>

definition txt_head :: "string \<Rightarrow> nat \<Rightarrow> int list" where
  "txt_head now n =
     code_points ''arXiv Robotics '' @ [0x8BBA, 0x6587, 0x4FE1, 0x606F, 0x6C47, 0x603B, 0x0A]
     @ replicate 80 0x3D @ [0x0A]
     @ [0x751F, 0x6210, 0x65F6, 0x95F4, 0x3A, 0x20] @ code_points now @ [0x0A]
     @ [0x603B, 0x8BA1, 0x3A, 0x20] @ code_points (str_nat n) @ [0x20, 0x7BC7, 0x8BBA, 0x6587, 0x0A]
     @ replicate 80 0x3D @ [0x0A, 0x0A]"

text \<open>
  The file is opened with \<open>encoding='utf-8'\<close>: the bytes of one code point, and of a
  text.  (The code points met here are no surrogates, which Python would refuse.)
\<close>

definition utf8_char :: "int \<Rightarrow> int list" where
  "utf8_char c =
     (if c < 0x80 then [c]
      else if c < 0x800 then [0xC0 + c div 0x40, 0x80 + c mod 0x40]
      else if c < 0x10000 then [0xE0 + c div 0x1000, 0x80 + c div 0x40 mod 0x40, 0x80 + c mod 0x40]
      else [0xF0 + c div 0x40000, 0x80 + c div 0x1000 mod 0x40, 0x80 + c div 0x40 mod 0x40,
            0x80 + c mod 0x40])"

definition utf8 :: "int list \<Rightarrow> int list" where
  "utf8 s = concat (map utf8_char s)"

text \<open>
  \<open>save_to_txt\<close>: the text handed to \<open>f.write\<close>, call after call, and the bytes of the
  file (a line ends in \<open>\n\<close>, as where \<open>os.linesep\<close> is \<open>\n\<close>).
\<close>

definition txt_text :: "string \<Rightarrow> paper_data list \<Rightarrow> int list" where
  "txt_text now papers = txt_head now (length papers) @ txt_blocks 1 papers"

definition save_to_txt :: "string \<Rightarrow> paper_data list \<Rightarrow> int list" where
  "save_to_txt now papers = utf8 (txt_text now papers)"

section \<open>The vocabulary of the properties\<close>

text \<open>The full-match test for an identifier, \<open>\d+\.\d+\<close> from the first to the last character.\<close>

definition is_id :: "string \<Rightarrow> bool" where
  "is_id s = (match_num s = Some (s, []))"

definition has_descendant :: "(node \<Rightarrow> bool) \<Rightarrow> node \<Rightarrow> bool" where
  "has_descendant P k = (\<exists>x \<in> set (descendants k). P (snd x))"

text \<open>
  A marker the scraper yields a record for: the \<open>dt\<close> holds a link whose \<open>href\<close>
  contains a match of \<open>/abs/\d+\.\d+\<close>, a later sibling of the \<open>dt\<close> is a \<open>dd\<close>,
  and the first such \<open>dd\<close> gives a title (from its title container, or else from the
  parent of its descriptor span) of at least 5 characters.
\<close>

definition well_formed :: "node \<Rightarrow> path \<times> node \<Rightarrow> bool" where
  "well_formed soup pd =
     (case pd of (p, dt) \<Rightarrow>
        has_descendant (\<lambda>k. is_named ''a'' k \<and> href_search pat_abs k) dt \<and>
        (case find_next_sibling soup p ''dd'' of
           None \<Rightarrow> False
         | Some (pdd, dd) \<Rightarrow> (case title_of_dd dd of None \<Rightarrow> False | Some t \<Rightarrow> 5 \<le> length t)))"

text \<open>The record expected for a well-formed marker.\<close>

definition record_of :: "node \<Rightarrow> path \<times> node \<Rightarrow> paper" where
  "record_of soup pd =
     (case pd of (p, dt) \<Rightarrow>
        \<lparr>arxiv_id =
           (case find_tag (\<lambda>k. is_named ''a'' k \<and> href_search pat_abs k) dt of
              None \<Rightarrow> None
            | Some (q, arxiv_link) \<Rightarrow> map_option fst (re_search pat_id (href_of arxiv_link))),
         title =
           (case find_next_sibling soup p ''dd'' of
              None \<Rightarrow> []
            | Some (pdd, dd) \<Rightarrow> (case title_of_dd dd of None \<Rightarrow> [] | Some t \<Rightarrow> t)),
         authors =
           (case find_next_sibling soup p ''dd'' of
              None \<Rightarrow> []
            | Some (pdd, dd) \<Rightarrow> authors_of_dd dd)\<rparr>)"

text \<open>
  The pair as the specification words it: the element that follows the \<open>dt\<close>
  immediately (strings between the two set aside) is a \<open>dd\<close>, and that \<open>dd\<close> gives
  the title.
\<close>

fun is_tag :: "node \<Rightarrow> bool" where
  "is_tag (Tag n a ks) = True"
| "is_tag (NavigableString s) = False"
| "is_tag (Comment s) = False"

definition next_element :: "node \<Rightarrow> path \<Rightarrow> node option" where
  "next_element soup p =
     (if p = [] then None
      else (case node_at soup (butlast p) of
              None \<Rightarrow> None
            | Some parent \<Rightarrow>
                (case filter is_tag (drop (Suc (last p)) (contents parent)) of
                   [] \<Rightarrow> None
                 | k # ks \<Rightarrow> Some k)))"

definition adjacent_pair :: "node \<Rightarrow> path \<times> node \<Rightarrow> bool" where
  "adjacent_pair soup pd =
     (case pd of (p, dt) \<Rightarrow>
        has_descendant (\<lambda>k. is_named ''a'' k \<and> href_search pat_abs k) dt \<and>
        (case next_element soup p of
           None \<Rightarrow> False
         | Some dd \<Rightarrow>
             is_named ''dd'' dd \<and>
             (case title_of_dd dd of None \<Rightarrow> False | Some t \<Rightarrow> 5 \<le> length t)))"

text \<open>No string of the document holds a carriage return.\<close>

fun no_cr :: "node \<Rightarrow> bool" where
  "no_cr (Tag n a ks) = ((\<forall>kv \<in> set a. CHR 0x0D \<notin> set (snd kv)) \<and> (\<forall>k \<in> set ks. no_cr k))"
| "no_cr (NavigableString s) = (CHR 0x0D \<notin> set s)"
| "no_cr (Comment s) = (CHR 0x0D \<notin> set s)"

text \<open>No detail element lies inside another detail element.\<close>

definition details_flat :: "node \<Rightarrow> bool" where
  "details_flat html =
     (\<forall>x \<in> set (find_all (is_named ''dd'') html). find_all (is_named ''dd'') (snd x) = [])"

text \<open>No title container is a metadata region or holds one.\<close>

definition titles_clear :: "node \<Rightarrow> bool" where
  "titles_clear html =
     (\<forall>x \<in> set (find_all (\<lambda>k. is_named ''div'' k \<and> has_class ''list-title'' k) html).
        \<not> has_class ''meta'' (snd x)
        \<and> find_all (\<lambda>k. is_named ''div'' k \<and> has_class ''meta'' k) (snd x) = [])"

section \<open>Documents used as concrete inputs\<close>

text \<open>
  A listing with two markers: the first with identifier, title and two author links, the
  second with a link that holds no identifier.
\<close>

definition listing_page :: node where
  "listing_page =
     Tag ''[document]'' [] [Tag ''dl'' [] [
       Tag ''dt'' [] [Tag ''a'' [(''href'', ''/abs/2511.08583'')]
                        [NavigableString ''arXiv:2511.08583'']],
       NavigableString [CHR 0x0A],
       Tag ''dd'' [] [Tag ''div'' [(''class'', ''meta'')] [
         Tag ''div'' [(''class'', ''list-title mathjax'')]
           [Tag ''span'' [(''class'', ''descriptor'')] [NavigableString ''Title:''],
            NavigableString ''   A   Study  of Robots ''],
         Tag ''div'' [(''class'', ''list-authors'')]
           [Tag ''a'' [(''href'', ''/search/cs?a=1'')] [NavigableString '' Ann Lee ''],
            NavigableString '', '',
            Tag ''a'' [(''href'', ''/search/cs?a=2'')] [NavigableString ''Bo Wu'']]]],
       Tag ''dt'' [] [Tag ''a'' [(''href'', ''/abs/none'')] []],
       Tag ''dd'' [] [Tag ''div'' [(''class'', ''list-title'')]
                        [NavigableString ''Title: Another paper'']]]]"

text \<open>Two markers with identifiers, and one detail element after the second.\<close>

definition two_markers_one_detail :: node where
  "two_markers_one_detail =
     Tag ''[document]'' [] [Tag ''dl'' [] [
       Tag ''dt'' [] [Tag ''a'' [(''href'', ''/abs/1.2'')] []],
       Tag ''dt'' [] [Tag ''a'' [(''href'', ''/abs/3.4'')] []],
       Tag ''dd'' [] [Tag ''div'' [(''class'', ''list-title'')]
                        [NavigableString ''Title: Hello world'']]]]"

text \<open>A site of two pages, the first with 50 records and the second with one.\<close>

definition pair_nodes :: "node list" where
  "pair_nodes =
     [Tag ''dt'' [] [Tag ''a'' [(''href'', ''/abs/2511.08583'')] []],
      Tag ''dd'' [] [Tag ''div'' [(''class'', ''list-title'')] [NavigableString ''Title: Robots'']]]"

definition full_page :: node where
  "full_page = Tag ''[document]'' [] (replicate 50 (Tag ''dl'' [] pair_nodes))"

definition last_page :: node where
  "last_page = Tag ''[document]'' [] [Tag ''dl'' [] pair_nodes]"

definition two_pages :: "string \<Rightarrow> node option" where
  "two_pages url = (if url = ''u'' then Some full_page
                    else if url = ''u?skip=50&show=50'' then Some last_page else None)"

text \<open>A marker whose only author link holds no text but a blank.\<close>

definition blank_author_page :: node where
  "blank_author_page =
     Tag ''[document]'' [] [Tag ''dl'' [] [
       Tag ''dt'' [] [Tag ''a'' [(''href'', ''/abs/1.2'')] []],
       Tag ''dd'' [] [
         Tag ''div'' [(''class'', ''list-title'')] [NavigableString ''Title: Hello world''],
         Tag ''div'' [(''class'', ''list-authors'')]
           [Tag ''a'' [(''href'', ''/search/?a=1'')] [NavigableString '' '']]]]]"

text \<open>An authors block without links, its names separated by commas.\<close>

definition plain_authors_div :: node where
  "plain_authors_div =
     Tag ''div'' [(''class'', ''list-authors'')]
       [Tag ''span'' [(''class'', ''descriptor'')] [NavigableString ''Authors:''],
        NavigableString '' A. Lee, , B. Wu ,'']"

text \<open>A saved listing with one marker, its metadata region holding the title and the subjects.\<close>

definition enrich_page :: node where
  "enrich_page =
     Tag ''[document]'' [] [Tag ''dl'' [] [
       Tag ''dt'' [] [Tag ''a'' [(''href'', ''/abs/2511.08583'')]
                        [NavigableString ''arXiv:2511.08583'']],
       Tag ''dd'' [] [Tag ''div'' [(''class'', ''meta'')] [
         Tag ''div'' [(''class'', ''list-title mathjax'')]
           [Tag ''span'' [(''class'', ''descriptor'')] [NavigableString ''Title:''],
            NavigableString ''   A   Study  of Robots ''],
         Tag ''div'' [(''class'', ''list-subjects'')]
           [NavigableString ''Subjects: Robotics'']]]]]"

text \<open>An abstract page.\<close>

definition abstract_page :: node where
  "abstract_page =
     Tag ''[document]'' [] [Tag ''blockquote'' [(''class'', ''abstract mathjax'')]
       [Tag ''span'' [(''class'', ''descriptor'')] [NavigableString ''Abstract:''],
        NavigableString '' We study robots.'']]"

text \<open>The same listing with the subjects block one level deeper in the metadata region.\<close>

definition nested_subjects_page :: node where
  "nested_subjects_page =
     Tag ''[document]'' [] [Tag ''dl'' [] [
       Tag ''dt'' [] [Tag ''a'' [(''href'', ''/abs/2511.08583'')]
                        [NavigableString ''arXiv:2511.08583'']],
       Tag ''dd'' [] [Tag ''div'' [(''class'', ''meta'')] [
         Tag ''div'' [(''class'', ''list-title mathjax'')]
           [NavigableString ''Title: A Study of Robots''],
         Tag ''p'' [] [Tag ''div'' [(''class'', ''list-subjects'')]
                         [NavigableString ''Subjects: Robotics'']]]]]]"

text \<open>A listing whose title holds the label text a second time, and such an abstract page.\<close>

definition subtitle_page :: node where
  "subtitle_page =
     Tag ''[document]'' [] [Tag ''dl'' [] [
       Tag ''dt'' [] [Tag ''a'' [(''href'', ''/abs/2511.08583'')] []],
       Tag ''dd'' [] [Tag ''div'' [(''class'', ''list-title'')]
                        [Tag ''span'' [(''class'', ''descriptor'')] [NavigableString ''Title:''],
                         NavigableString '' Subtitle: A Study'']]]]"

definition inner_label_page :: node where
  "inner_label_page =
     Tag ''[document]'' [] [Tag ''blockquote'' [(''class'', ''abstract'')]
       [Tag ''span'' [(''class'', ''descriptor'')] [NavigableString ''Abstract:''],
        NavigableString '' We study. Extended abstract: none'']]"

text \<open>
  A listing whose detail element has no title container: the title stands in a
  paragraph, behind a descriptor span.
\<close>

definition fallback_title_page :: node where
  "fallback_title_page =
     Tag ''[document]'' [] [Tag ''dl'' [] [
       Tag ''dt'' [] [Tag ''a'' [(''href'', ''/abs/1.2'')] []],
       Tag ''dd'' [] [Tag ''p'' []
         [Tag ''span'' [(''class'', ''descriptor'')] [NavigableString ''Title:''],
          NavigableString '' Hello world'']]]]"

subsection \<open>Documents that carry their abstracts\<close>

text \<open>
  The record the driver builds for a marker on the re-entrant path, from the document
  alone: the abstract is read from the container the detail element already holds.
\<close>

definition reread :: "node \<Rightarrow> path \<times> node \<Rightarrow> paper_data option" where
  "reread html pd =
     (case derive_dt html pd of
        None \<Rightarrow> None
      | Some (aid, t, html_link, pdd, dd) \<Rightarrow>
          (case find_tag (\<lambda>k. is_named ''div'' k \<and> has_class ''list-abstract'' k) dd of
             None \<Rightarrow> None
           | Some (qa, existing_abstract) \<Rightarrow>
               Some (make_paper_data t html_link aid
                       (Some (strip (re_sub pat_abstract (get_text existing_abstract)))))))"

text \<open>Every detail element the driver processes carries an abstract container.\<close>

definition enriched :: "node \<Rightarrow> bool" where
  "enriched html =
     (\<forall>pd \<in> set (find_all (is_named ''dt'') html).
        case derive_dt html pd of
          None \<Rightarrow> True
        | Some (aid, t, html_link, pdd, dd) \<Rightarrow>
            find_tag (\<lambda>k. is_named ''div'' k \<and> has_class ''list-abstract'' k) dd \<noteq> None)"

text \<open>The listing \<open>enrich_page\<close> after a run that retrieved the abstract.\<close>

definition enriched_page :: node where
  "enriched_page =
     Tag ''[document]'' [] [Tag ''dl'' [] [
       Tag ''dt'' [] [Tag ''a'' [(''href'', ''/abs/2511.08583'')]
                        [NavigableString ''arXiv:2511.08583'']],
       Tag ''dd'' [] [Tag ''div'' [(''class'', ''meta'')] [
         Tag ''div'' [(''class'', ''list-title mathjax'')]
           [Tag ''span'' [(''class'', ''descriptor'')] [NavigableString ''Title:''],
            NavigableString ''   A   Study  of Robots ''],
         Tag ''div'' [(''class'', ''list-abstract'')]
           [Tag ''span'' [(''class'', ''descriptor'')] [NavigableString ''Abstract:''],
            NavigableString '' We study robots.''],
         Tag ''div'' [(''class'', ''list-subjects'')]
           [NavigableString ''Subjects: Robotics'']]]]]"

definition enriched_record :: paper_data where
  "enriched_record =
     \<lparr>pd_title = code_points ''A Study of Robots'',
      pd_html_link = code_points ''https://arxiv.org/html/2511.08583v1'',
      pd_abs_link = code_points ''https://arxiv.org/abs/2511.08583'',
      pd_abstract = code_points ''We study robots.''\<rparr>"

text \<open>
  A saved listing with three markers: the first holds no identifier, the detail element
  of the second carries its abstract already, the third is as retrieved from the site.
\<close>

definition half_enriched_page :: node where
  "half_enriched_page =
     Tag ''[document]'' [] [Tag ''dl'' [] [
       Tag ''dt'' [] [Tag ''a'' [(''href'', ''/abs/none'')] []],
       Tag ''dd'' [] [Tag ''div'' [(''class'', ''list-title'')]
                        [NavigableString ''Title: No identifier'']],
       Tag ''dt'' [] [Tag ''a'' [(''href'', ''/abs/1.2'')] []],
       Tag ''dd'' [] [
         Tag ''div'' [(''class'', ''list-title'')] [NavigableString ''Title: Hello world''],
         Tag ''div'' [(''class'', ''list-abstract'')]
           [Tag ''span'' [(''class'', ''descriptor'')] [NavigableString ''Abstract:''],
            NavigableString '' We say hello.'']],
       Tag ''dt'' [] [Tag ''a'' [(''href'', ''/abs/3.4'')] []],
       Tag ''dd'' [] [Tag ''div'' [(''class'', ''list-title'')]
                        [NavigableString ''Title: Another paper'']]]]"

definition hello_record :: paper_data where
  "hello_record =
     \<lparr>pd_title = code_points ''Hello world'',
      pd_html_link = code_points ''https://arxiv.org/html/1.2v1'',
      pd_abs_link = code_points ''https://arxiv.org/abs/1.2'',
      pd_abstract = code_points ''We say hello.''\<rparr>"

definition another_record :: paper_data where
  "another_record =
     \<lparr>pd_title = code_points ''Another paper'',
      pd_html_link = code_points ''https://arxiv.org/html/3.4v1'',
      pd_abs_link = code_points ''https://arxiv.org/abs/3.4'',
      pd_abstract = placeholder\<rparr>"

text \<open>A listing whose title container is the metadata region as well.\<close>

definition title_in_meta_page :: node where
  "title_in_meta_page =
     Tag ''[document]'' [] [Tag ''dl'' [] [
       Tag ''dt'' [] [Tag ''a'' [(''href'', ''/abs/2511.08583'')] []],
       Tag ''dd'' [] [Tag ''div'' [(''class'', ''meta list-title'')]
                        [NavigableString ''Title: A Study of Robots'']]]]"

text \<open>
  A listing whose first detail element holds a second list, with a marker and a detail
  element of its own, and a site that has a different abstract for each of the two.
\<close>

definition nested_details_page :: node where
  "nested_details_page =
     Tag ''[document]'' [] [Tag ''dl'' [] [
       Tag ''dt'' [] [Tag ''a'' [(''href'', ''/abs/1.2'')] []],
       Tag ''dd'' [] [
         Tag ''div'' [(''class'', ''list-title'')] [NavigableString ''Title: Outer paper''],
         Tag ''dl'' [] [
           Tag ''dt'' [] [Tag ''a'' [(''href'', ''/abs/3.4'')] []],
           Tag ''dd'' [] [Tag ''div'' [(''class'', ''list-title'')]
                            [NavigableString ''Title: Inner paper'']]]]]]"

definition two_abstracts :: "string \<Rightarrow> node option" where
  "two_abstracts url =
     Some (Tag ''[document]'' [] [Tag ''blockquote'' [(''class'', ''abstract'')]
       [NavigableString (if url = ''https://arxiv.org/abs/1.2'' then ''Abstract: First abstract.''
                         else ''Abstract: Second abstract.'')]])"

text \<open>An abstract page whose text holds a carriage return.\<close>

definition cr_abstract_page :: node where
  "cr_abstract_page =
     Tag ''[document]'' [] [Tag ''blockquote'' [(''class'', ''abstract'')]
       [NavigableString (''Abstract: one'' @ [CHR 0x0D] @ ''two'')]]"

text \<open>A saved listing whose detail element carries an abstract with a carriage return.\<close>

definition cr_listing_page :: node where
  "cr_listing_page =
     Tag ''[document]'' [] [Tag ''dl'' [] [
       Tag ''dt'' [] [Tag ''a'' [(''href'', ''/abs/1.2'')] []],
       Tag ''dd'' [] [
         Tag ''div'' [(''class'', ''list-title'')] [NavigableString ''Title: Hello world''],
         Tag ''div'' [(''class'', ''list-abstract'')]
           [Tag ''span'' [(''class'', ''descriptor'')] [NavigableString ''Abstract:''],
            NavigableString ('' one'' @ [CHR 0x0D] @ ''two'')]]]]"

subsection \<open>Paths and elements after an insertion\<close>

text \<open>
  When a new child is put at position \<open>i\<close> into the element at path \<open>q\<close>, the element
  that was at path \<open>r\<close> is found at \<open>shifted q i r\<close>, and it is \<open>grown q i c r x\<close>: the
  element itself, or, when \<open>r\<close> leads towards \<open>q\<close>, the element with the new child in it.
\<close>

fun shifted :: "path \<Rightarrow> nat \<Rightarrow> path \<Rightarrow> path" where
  "shifted q i [] = []"
| "shifted [] i (x # r) = (if i \<le> x then Suc x # r else x # r)"
| "shifted (j # q) i (x # r) = (if x = j then x # shifted q i r else x # r)"

fun grown :: "path \<Rightarrow> nat \<Rightarrow> node \<Rightarrow> path \<Rightarrow> node \<Rightarrow> node" where
  "grown q i c [] x = update_at q (tag_insert i c) x"
| "grown [] i c (y # r) x = x"
| "grown (j # q) i c (y # r) x = (if y = j then grown q i c r x else x)"

text \<open>A search criterion that looks at the name and the attributes of a tag only.\<close>

definition by_head :: "(node \<Rightarrow> bool) \<Rightarrow> bool" where
  "by_head P = (\<forall>n a ks ks'. P (Tag n a ks) = P (Tag n a ks'))"

text \<open>
  The detail element of a marker is ready for a second run: the driver does not process
  the marker, or the detail element carries an abstract container.
\<close>

definition detail_ready :: "node \<Rightarrow> path \<times> node \<Rightarrow> bool" where
  "detail_ready html pd =
     (case derive_dt html pd of
        None \<Rightarrow> True
      | Some (aid, t, html_link, pdd, dd) \<Rightarrow>
          find_tag (\<lambda>k. is_named ''div'' k \<and> has_class ''list-abstract'' k) dd \<noteq> None)"

section \<open>Facts about the patterns\<close>

lemma takeWhile_run_stop:
  "\<not> P c \<Longrightarrow> takeWhile P (takeWhile P s @ c # r) = takeWhile P s"
  by (induction s) auto

lemma dropWhile_run_stop:
  "\<not> P c \<Longrightarrow> dropWhile P (takeWhile P s @ c # r) = c # r"
  by (induction s) auto

lemma match_num_is_id:
  assumes "match_num s = Some (i, r)"
  shows "is_id i"
proof -
  from assms obtain r2 where
    d1: "takeWhile isdigit s \<noteq> []" and
    r1: "dropWhile isdigit s = CHR ''.'' # r2" and
    d2: "takeWhile isdigit r2 \<noteq> []" and
    i: "i = takeWhile isdigit s @ CHR ''.'' # takeWhile isdigit r2"
    by (auto simp: match_num_def Let_def split: if_splits list.splits)
  have nd: "\<not> isdigit CHR ''.''" by (simp add: isdigit_def)
  have t1: "takeWhile isdigit i = takeWhile isdigit s"
    unfolding i using nd by (rule takeWhile_run_stop)
  have dr: "dropWhile isdigit i = CHR ''.'' # takeWhile isdigit r2"
    unfolding i using nd by (rule dropWhile_run_stop)
  show ?thesis
    unfolding is_id_def match_num_def Let_def t1 dr using d1 d2 i
    by (auto dest: set_takeWhileD)
qed



lemma lit_Some_iff: "lit l s = Some r \<longleftrightarrow> s = l @ r"
  by (induction l s rule: lit.induct) auto

lemma re_search_found: "pat t \<noteq> None \<Longrightarrow> re_search pat (u @ t) \<noteq> None"
proof (induction u)
  case Nil
  then show ?case by (cases t) (auto split: option.splits)
next
  case (Cons c u)
  then show ?case by (auto split: option.splits)
qed

lemma re_search_SomeD: "re_search pat s = Some m \<Longrightarrow> \<exists>u t. s = u @ t \<and> pat t = Some m"
proof (induction s)
  case Nil
  then show ?case by auto
next
  case (Cons c s)
  show ?case
  proof (cases "pat (c # s)")
    case None
    with Cons obtain u t where "s = u @ t" "pat t = Some m" by auto
    then have "c # s = (c # u) @ t \<and> pat t = Some m" by simp
    then show ?thesis by blast
  next
    case (Some a)
    with Cons.prems have "c # s = [] @ (c # s) \<and> pat (c # s) = Some m" by simp
    then show ?thesis by blast
  qed
qed

lemma abs_link_has_id:
  assumes "re_search pat_abs v \<noteq> None"
  shows "\<exists>i r. re_search pat_id v = Some (i, r) \<and> is_id i"
proof -
  from assms obtain m where "re_search pat_abs v = Some m" by auto
  then obtain u t where v: "v = u @ t" and t: "pat_abs t = Some m"
    using re_search_SomeD by blast
  from t obtain r0 where t0: "t = ''/abs/'' @ r0" and m: "match_num r0 = Some m"
    by (auto simp: pat_abs_def lit_Some_iff split: option.splits)
  have "pat_id (''/'' @ r0) \<noteq> None"
    using m by (simp add: pat_id_def)
  then have "re_search pat_id ((u @ ''/abs'') @ (''/'' @ r0)) \<noteq> None"
    by (rule re_search_found)
  then have "re_search pat_id v \<noteq> None" by (simp add: v t0)
  then obtain i r where ir: "re_search pat_id v = Some (i, r)" by auto
  then obtain u' t' where "pat_id t' = Some (i, r)"
    using re_search_SomeD by blast
  then have "is_id i"
    by (auto simp: pat_id_def split: option.splits dest: match_num_is_id)
  with ir show ?thesis by blast
qed

lemma find_tag_SomeD: "find_tag P k = Some (q, d) \<Longrightarrow> P d \<and> (q, d) \<in> set (descendants k)"
proof -
  assume "find_tag P k = Some (q, d)"
  then obtain xs where "find_all P k = (q, d) # xs"
    by (auto simp: find_tag_def split: list.splits)
  then have "(q, d) \<in> set (filter (\<lambda>(p, d). P d) (descendants k))"
    by (simp add: find_all_def)
  then show ?thesis by auto
qed

lemma find_tag_None_iff: "find_tag P k = None \<longleftrightarrow> (\<forall>x \<in> set (descendants k). \<not> P (snd x))"
proof -
  have "find_tag P k = None \<longleftrightarrow> find_all P k = []"
    by (simp add: find_tag_def split: list.splits)
  also have "\<dots> \<longleftrightarrow> (\<forall>x \<in> set (descendants k). \<not> P (snd x))"
    by (auto simp: find_all_def filter_empty_conv)
  finally show ?thesis .
qed

lemma scrape_loop_eq:
  "scrape_loop soup dts acc = acc @ List.map_filter (scrape_dt soup) dts"
  by (induction dts arbitrary: acc) (auto simp: List.map_filter_simps split: option.splits)

lemma extract_loop_eq:
  "extract_loop soup dts acc = acc @ List.map_filter (extract_dt soup) dts"
  by (induction dts arbitrary: acc) (auto simp: List.map_filter_simps split: option.splits)

lemma scrape_dt_id:
  assumes "scrape_dt soup pd = Some paper"
  shows "\<exists>i. arxiv_id paper = Some i \<and> is_id i"
proof -
  obtain p dt where pd: "pd = (p, dt)" by (cases pd)
  from assms obtain q arxiv_link where
    f: "find_tag (\<lambda>k. is_named ''a'' k \<and> href_search pat_abs k) dt = Some (q, arxiv_link)" and
    a: "arxiv_id paper = map_option fst (re_search pat_id (href_of arxiv_link))"
    by (auto simp: scrape_dt_def pd Let_def split: option.splits if_splits)
  from find_tag_SomeD[OF f] have "href_search pat_abs arxiv_link" by simp
  then obtain v where v: "attr arxiv_link ''href'' = Some v" and s: "re_search pat_abs v \<noteq> None"
    by (auto simp: href_search_def split: option.splits)
  from abs_link_has_id[OF s] obtain i r where "re_search pat_id v = Some (i, r)" "is_id i" by blast
  with a v show ?thesis by (simp add: href_of_def)
qed

lemma extract_dt_id:
  assumes "extract_dt soup pd = Some paper"
  shows "is_id (hp_arxiv_id paper)"
proof -
  obtain p dt where pd: "pd = (p, dt)" by (cases pd)
  from assms obtain q arxiv_link r where
    a: "re_search pat_id (href_of arxiv_link) = Some (hp_arxiv_id paper, r)"
    by (auto simp: extract_dt_def pd Let_def split: option.splits if_splits)
  then obtain u t where "pat_id t = Some (hp_arxiv_id paper, r)"
    using re_search_SomeD by blast
  then show ?thesis
    by (auto simp: pat_id_def split: option.splits dest: match_num_is_id)
qed

lemma map_filter_SomeD: "x \<in> set (List.map_filter f xs) \<Longrightarrow> \<exists>y \<in> set xs. f y = Some x"
  by (auto simp: List.map_filter_def)


section \<open>Facts about the scraper\<close>

lemma find_tag_has_descendant: "find_tag P k \<noteq> None \<longleftrightarrow> has_descendant P k"
  by (simp add: find_tag_None_iff has_descendant_def)

lemma scrape_dt_char:
  "scrape_dt soup pd = (if well_formed soup pd then Some (record_of soup pd) else None)"
proof (cases pd)
  case (Pair p dt)
  show ?thesis
  proof (cases "find_tag (\<lambda>k. is_named ''a'' k \<and> href_search pat_abs k) dt")
    case None
    then have "\<not> well_formed soup pd"
      using find_tag_has_descendant[of "\<lambda>k. is_named ''a'' k \<and> href_search pat_abs k" dt]
      by (simp add: well_formed_def Pair)
    then show ?thesis using None by (simp add: scrape_dt_def Pair)
  next
    case (Some ql)
    then have h: "has_descendant (\<lambda>k. is_named ''a'' k \<and> href_search pat_abs k) dt"
      using find_tag_has_descendant[of "\<lambda>k. is_named ''a'' k \<and> href_search pat_abs k" dt]
      by simp
    show ?thesis
      using Some h
      by (auto simp: scrape_dt_def well_formed_def record_of_def Pair Let_def
               split: option.splits prod.splits)
  qed
qed

lemma map_filter_if:
  "List.map_filter (\<lambda>x. if P x then Some (f x) else None) xs = map f (filter P xs)"
  by (induction xs) (auto simp: List.map_filter_simps)

lemma papers_of_soup_char:
  "papers_of_soup soup =
     map (record_of soup) (filter (well_formed soup) (find_all (is_named ''dt'') soup))"
proof -
  have "scrape_dt soup = (\<lambda>pd. if well_formed soup pd then Some (record_of soup pd) else None)"
    by (rule ext) (rule scrape_dt_char)
  then show ?thesis
    by (simp add: papers_of_soup_def scrape_loop_eq map_filter_if)
qed



lemma scrape_pages_run:
  assumes "\<forall>j<k. 50 \<le> length (get_papers_from_page session (page_url base_url (skip + 50 * j)))"
    and "length (get_papers_from_page session (page_url base_url (skip + 50 * k))) < 50"
  shows "scrape_pages session base_url skip acc reqs =
           Some (acc @ concat (map (\<lambda>j. get_papers_from_page session (page_url base_url (skip + 50 * j))) [0..<Suc k]),
                 reqs @ map (\<lambda>j. page_url base_url (skip + 50 * j)) [0..<Suc k])"
  using assms
proof (induction k arbitrary: skip acc reqs)
  case 0
  then show ?case
    by (subst scrape_pages.simps) (auto simp: Let_def)
next
  case (Suc k)
  let ?page = "\<lambda>s j. get_papers_from_page session (page_url base_url (s + 50 * j))"
  from Suc.prems(1) have full0: "50 \<le> length (?page skip 0)" by force
  have shift: "\<And>j. skip + 50 + 50 * j = skip + 50 * Suc j" by simp
  have h1: "\<forall>j<k. 50 \<le> length (?page (skip + 50) j)"
    using Suc.prems(1) by (auto simp: shift)
  have h2: "length (?page (skip + 50) k) < 50"
    using Suc.prems(2) by (simp add: shift)
  note IH = Suc.IH[OF h1 h2, of "acc @ ?page skip 0" "reqs @ [page_url base_url skip]"]
  have ne: "?page skip 0 \<noteq> []" using full0 by auto
  have split_upt: "[0..<Suc (Suc k)] = 0 # map Suc [0..<Suc k]"
    by (simp add: upt_conv_Cons map_Suc_upt del: upt_Suc)
  show ?case
    apply (subst scrape_pages.simps)
    using full0 ne IH
    apply (simp add: Let_def split_upt shift comp_def del: upt_Suc)
    done
qed



section \<open>Facts about the authors\<close>

lemma last_dropWhile: "dropWhile P xs \<noteq> [] \<Longrightarrow> last (dropWhile P xs) = last xs"
  by (induction xs) (auto split: if_splits)

lemma strip_fixed:
  assumes "s \<noteq> []" "\<not> isspace (hd s)" "\<not> isspace (last s)"
  shows "strip s = s"
proof -
  have 1: "dropWhile isspace s = s"
    using assms by (cases s) auto
  have "rev s \<noteq> []" "\<not> isspace (hd (rev s))"
    using assms by (simp_all add: hd_rev)
  then have 2: "dropWhile isspace (rev s) = rev s"
    by (cases "rev s") auto
  show ?thesis by (simp add: strip_def 1 2)
qed

lemma strip_ends:
  assumes "strip s \<noteq> []"
  shows "\<not> isspace (hd (strip s)) \<and> \<not> isspace (last (strip s))"
proof -
  let ?t = "dropWhile isspace s"
  let ?u = "dropWhile isspace (rev ?t)"
  from assms have u: "?u \<noteq> []" by (simp add: strip_def)
  then have t: "?t \<noteq> []" by (metis dropWhile.simps(1) rev.simps(1))
  have hu: "\<not> isspace (hd ?u)" using u by (rule hd_dropWhile)
  have ht: "\<not> isspace (hd ?t)" using t by (rule hd_dropWhile)
  have "last ?u = last (rev ?t)" using u by (rule last_dropWhile)
  also have "\<dots> = hd ?t" using t by (simp add: last_rev)
  finally have lu: "last ?u = hd ?t" .
  have "hd (strip s) = last ?u" using u by (simp add: strip_def hd_rev)
  moreover have "last (strip s) = hd ?u" using u by (simp add: strip_def last_rev)
  ultimately show ?thesis using hu ht lu by simp
qed

lemma strip_idem: "strip (strip s) = strip s"
proof (cases "strip s = []")
  case True
  have "strip [] = []" by (simp add: strip_def)
  with True show ?thesis by metis
next
  case False
  then show ?thesis using strip_ends[OF False] by (intro strip_fixed) auto
qed

lemma last_concat_ne:
  "fs \<noteq> [] \<Longrightarrow> last fs \<noteq> [] \<Longrightarrow> last (concat fs) = last (last fs)"
  by (induction fs) (auto simp: last_append)

lemma strip_concat:
  assumes "\<forall>f \<in> set fs. f \<noteq> [] \<and> strip f = f"
  shows "strip (concat fs) = concat fs"
proof (cases fs)
  case Nil
  then show ?thesis by (simp add: strip_def)
next
  case (Cons g gs)
  have ends: "\<And>f. f \<in> set fs \<Longrightarrow> f \<noteq> [] \<and> \<not> isspace (hd f) \<and> \<not> isspace (last f)"
  proof -
    fix f assume "f \<in> set fs"
    with assms have "f \<noteq> []" "strip f = f" by auto
    then show "f \<noteq> [] \<and> \<not> isspace (hd f) \<and> \<not> isspace (last f)"
      using strip_ends[of f] by simp
  qed
  have g: "g \<noteq> [] \<and> \<not> isspace (hd g)" using ends[of g] Cons by simp
  have l: "last fs \<noteq> [] \<and> \<not> isspace (last (last fs))"
    using ends[of "last fs"] Cons by simp
  have ne: "concat fs \<noteq> []" using g Cons by simp
  have h: "hd (concat fs) = hd g" using g Cons by simp
  have "last (concat fs) = last (last fs)"
    using l Cons by (intro last_concat_ne) auto
  with ne h g l show ?thesis by (intro strip_fixed) auto
qed

lemma stripped_strings_ok: "f \<in> set (stripped_strings k) \<Longrightarrow> f \<noteq> [] \<and> strip f = f"
  by (induction k arbitrary: f) (auto simp: strip_idem split: if_splits)

lemma get_text_strip_stripped: "strip (get_text_strip k) = get_text_strip k"
  unfolding get_text_strip_def by (rule strip_concat) (blast dest: stripped_strings_ok)

lemma authors_of_div_stripped:
  assumes "a \<in> set (authors_of_div d)"
  shows "strip a = a"
    and "find_all (\<lambda>k. is_named ''a'' k \<and> href_search (pat_lit ''/search/'') k) d = [] \<Longrightarrow> a \<noteq> []"
  using assms
  by (auto simp: authors_of_div_def Let_def get_text_strip_stripped strip_idem split: if_splits)

lemma authors_of_dd_stripped: "a \<in> set (authors_of_dd dd) \<Longrightarrow> strip a = a"
  by (auto simp: authors_of_dd_def split: option.splits dest: authors_of_div_stripped(1))

lemma record_of_authors_stripped: "a \<in> set (authors (record_of soup pd)) \<Longrightarrow> strip a = a"
  by (cases pd) (auto simp: record_of_def split: option.splits dest: authors_of_dd_stripped)

section \<open>Facts about the enrichment\<close>

lemma placeholder_nonempty: "placeholder \<noteq> []"
  by (simp add: placeholder_def)

lemma make_paper_data_abstract: "pd_abstract (make_paper_data t hl aid a) \<noteq> []"
  by (cases a) (simp_all add: make_paper_data_def placeholder_nonempty code_points_def)

lemma enrich_dt_abstracts:
  assumes "enrich_dt session k st = Inr st'"
    and "\<forall>paper \<in> set (papers_data st). pd_abstract paper \<noteq> []"
  shows "\<forall>paper \<in> set (papers_data st'). pd_abstract paper \<noteq> []"
  using assms
  by (auto simp: enrich_dt_def Let_def make_paper_data_abstract
           split: list.splits option.splits sum.splits if_splits)

lemma enrich_loop_abstracts:
  assumes "enrich_loop session ks st = Inr st'"
    and "\<forall>paper \<in> set (papers_data st). pd_abstract paper \<noteq> []"
  shows "\<forall>paper \<in> set (papers_data st'). pd_abstract paper \<noteq> []"
  using assms
proof (induction ks arbitrary: st)
  case Nil
  then show ?case by simp
next
  case (Cons k ks)
  from Cons.prems(1) obtain st1 where
    s1: "enrich_dt session k st = Inr st1" and s2: "enrich_loop session ks st1 = Inr st'"
    by (auto split: sum.splits)
  from enrich_dt_abstracts[OF s1 Cons.prems(2)] Cons.IH[OF s2] show ?case by blast
qed

lemma enrich_loop_append:
  "enrich_loop session (xs @ ys) st =
     (case enrich_loop session xs st of Inl e \<Rightarrow> Inl e | Inr st' \<Rightarrow> enrich_loop session ys st')"
  by (induction xs arbitrary: st) (auto split: sum.splits)

lemma enrich_dt_papers:
  "enrich_dt session k st = Inr st' \<Longrightarrow> \<exists>ps. papers_data st' = papers_data st @ ps"
  by (auto simp: enrich_dt_def Let_def split: list.splits option.splits sum.splits if_splits)

lemma enrich_loop_papers:
  "enrich_loop session ks st = Inr st' \<Longrightarrow> \<exists>ps. papers_data st' = papers_data st @ ps"
proof (induction ks arbitrary: st)
  case Nil
  then show ?case by simp
next
  case (Cons k ks)
  from Cons.prems obtain st1 where
    s1: "enrich_dt session k st = Inr st1" and s2: "enrich_loop session ks st1 = Inr st'"
    by (auto split: sum.splits)
  from enrich_dt_papers[OF s1] Cons.IH[OF s2] show ?case by auto
qed

lemma enrich_dt_absent_record:
  assumes "enrich_dt session k st = Inr st'"
    and "fetched st' = fetched st @ [aid]"
    and "get_abstract session aid = None"
  shows "\<exists>paper. papers_data st' = papers_data st @ [paper] \<and> pd_abstract paper = placeholder
           \<and> pd_abs_link paper = code_points (''https://arxiv.org/abs/'' @ aid)"
  using assms
  by (auto simp: enrich_dt_def Let_def make_paper_data_def
           split: list.splits option.splits sum.splits if_splits)

lemma txt_blocks_append:
  "txt_blocks i (xs @ ys) = txt_blocks i xs @ txt_blocks (i + length xs) ys"
  by (induction xs arbitrary: i) auto

lemma utf8_append: "utf8 (xs @ ys) = utf8 xs @ utf8 ys"
  by (simp add: utf8_def)

lemma utf8_placeholder:
  "utf8 placeholder =
     [0xEF, 0xBC, 0x88, 0xE6, 0x9C, 0xAA, 0xE8, 0x8E, 0xB7, 0xE5, 0x8F, 0x96, 0xE5, 0x88, 0xB0,
      0xE6, 0x91, 0x98, 0xE8, 0xA6, 0x81, 0xEF, 0xBC, 0x89]"
  by (simp add: utf8_def utf8_char_def placeholder_def)

lemma title_of_dd_container:
  "find_tag (\<lambda>k. is_named ''div'' k \<and> has_class ''list-title'' k) dd = Some (qt, title_div)
   \<Longrightarrow> title_of_dd dd = Some (clean_title (get_text title_div))"
  by (simp add: title_of_dd_def)

lemma derive_dt_no_container:
  "find_next_sibling soup p ''dd'' = Some (pdd, dd) \<Longrightarrow>
   find_tag (\<lambda>k. is_named ''div'' k \<and> has_class ''list-title'' k) dd = None \<Longrightarrow>
   derive_dt soup (p, dt) = None"
  by (simp add: derive_dt_def split: option.splits)

lemma derive_dt_iff_scrape_dt:
  assumes dd: "find_next_sibling soup p ''dd'' = Some (pdd, dd)"
    and td: "find_tag (\<lambda>k. is_named ''div'' k \<and> has_class ''list-title'' k) dd = Some (qt, title_div)"
    and len: "5 \<le> length (clean_title (get_text title_div))"
  shows "(\<exists>hl. derive_dt soup (p, dt) = Some (aid, t, hl, pdd, dd)) \<longleftrightarrow>
         (\<exists>paper. scrape_dt soup (p, dt) = Some paper \<and> arxiv_id paper = Some aid \<and> title paper = t)"
proof (cases "find_tag (\<lambda>k. is_named ''a'' k \<and> href_search pat_abs k) dt")
  case None
  then show ?thesis by (simp add: derive_dt_def scrape_dt_def)
next
  case (Some ql)
  obtain q arxiv_link where ql: "ql = (q, arxiv_link)" by (cases ql)
  have tt: "title_of_dd dd = Some (clean_title (get_text title_div))"
    using td by (rule title_of_dd_container)
  have ne: "clean_title (get_text title_div) \<noteq> []" using len by auto
  show ?thesis
  proof (cases "re_search pat_id (href_of arxiv_link)")
    case None
    then show ?thesis
      using Some ql dd td tt len ne
      by (auto simp: derive_dt_def scrape_dt_def Let_def)
  next
    case (Some ir)
    obtain i r where ir: "ir = (i, r)" by (cases ir)
    show ?thesis
      using \<open>find_tag (\<lambda>k. is_named ''a'' k \<and> href_search pat_abs k) dt = Some ql\<close>
        Some ir ql dd td tt len ne
      by (auto simp: derive_dt_def scrape_dt_def Let_def)
  qed
qed

lemma extract_dt_derive_dt:
  assumes "extract_dt soup (p, dt) = Some paper"
  shows "\<exists>pdd dd. derive_dt soup (p, dt) =
           Some (hp_arxiv_id paper, hp_title paper, hp_html_link paper, pdd, dd)"
  using assms
  by (auto simp: extract_dt_def derive_dt_def Let_def split: option.splits if_splits)

lemma enrich_dt_reentrant:
  assumes "es_soup st = html" and "enriched html"
    and "k < length (find_all (is_named ''dt'') html)"
  shows "enrich_dt session k st =
           Inr (case reread html (find_all (is_named ''dt'') html ! k) of
                  None \<Rightarrow> st
                | Some paper \<Rightarrow> st\<lparr>papers_data := papers_data st @ [paper],
                                   processed_count := processed_count st + 1\<rparr>)"
proof -
  let ?dts = "find_all (is_named ''dt'') html"
  have d: "drop k ?dts = ?dts ! k # drop (Suc k) ?dts"
    using assms(3) by (simp add: Cons_nth_drop_Suc)
  have "?dts ! k \<in> set ?dts" using assms(3) by simp
  with assms(2) have g: "case derive_dt html (?dts ! k) of
          None \<Rightarrow> True
        | Some (aid, t, html_link, pdd, dd) \<Rightarrow>
            find_tag (\<lambda>k. is_named ''div'' k \<and> has_class ''list-abstract'' k) dd \<noteq> None"
    unfolding enriched_def by (rule bspec)
  show ?thesis
    using g by (auto simp: enrich_dt_def assms(1) d reread_def Let_def split: option.splits)
qed

lemma enrich_loop_reentrant:
  assumes "es_soup st = html" and "enriched html"
    and "\<forall>k \<in> set ks. k < length (find_all (is_named ''dt'') html)"
  shows "enrich_loop session ks st =
           Inr (st\<lparr>papers_data :=
                     papers_data st @ List.map_filter (reread html)
                                        (map ((!) (find_all (is_named ''dt'') html)) ks),
                   processed_count :=
                     processed_count st + length (List.map_filter (reread html)
                                        (map ((!) (find_all (is_named ''dt'') html)) ks))\<rparr>)"
  using assms
proof (induction ks arbitrary: st)
  case Nil
  then show ?case by (simp add: List.map_filter_simps)
next
  case (Cons k ks)
  let ?dts = "find_all (is_named ''dt'') html"
  have k: "k < length ?dts" using Cons.prems(3) by simp
  note step = enrich_dt_reentrant[OF Cons.prems(1) Cons.prems(2) k, of session]
  show ?case
  proof (cases "reread html (?dts ! k)")
    case None
    with step have s: "enrich_dt session k st = Inr st" by simp
    have "\<forall>k \<in> set ks. k < length ?dts" using Cons.prems(3) by simp
    from Cons.IH[OF Cons.prems(1) Cons.prems(2) this] s None
    show ?thesis by (simp add: List.map_filter_simps)
  next
    case (Some paper)
    let ?st1 = "st\<lparr>papers_data := papers_data st @ [paper],
                   processed_count := processed_count st + 1\<rparr>"
    from step Some have s: "enrich_dt session k st = Inr ?st1" by simp
    have e: "es_soup ?st1 = html" using Cons.prems(1) by simp
    have "\<forall>k \<in> set ks. k < length ?dts" using Cons.prems(3) by simp
    from Cons.IH[OF e Cons.prems(2) this] s Some
    show ?thesis by (simp add: List.map_filter_simps)
  qed
qed

lemma add_abstracts_reentrant:
  assumes "enriched html"
  shows "add_abstracts_to_html session html =
           Inr \<lparr>es_soup = html,
                papers_data = List.map_filter (reread html) (find_all (is_named ''dt'') html),
                processed_count =
                  length (List.map_filter (reread html) (find_all (is_named ''dt'') html)),
                fetched = [], sleeps = 0\<rparr>"
proof -
  let ?dts = "find_all (is_named ''dt'') html"
  let ?init = "\<lparr>es_soup = html, papers_data = [], processed_count = 0, fetched = [], sleeps = 0\<rparr>"
  have e: "es_soup ?init = html" by simp
  have b: "\<forall>k \<in> set [0..<length ?dts]. k < length ?dts" by simp
  have m: "map ((!) ?dts) [0..<length ?dts] = ?dts" by (rule map_nth)
  from enrich_loop_reentrant[OF e assms b, of session]
  show ?thesis
    unfolding add_abstracts_to_html_def m by simp
qed


lemma kids_descendants_iff:
  "(j # q, m) \<in> set (kids_descendants i ks) \<longleftrightarrow>
     (\<exists>l < length ks. j = i + l \<and>
        (q = [] \<and> m = ks ! l \<or> (q, m) \<in> set (descendants (ks ! l))))"
proof (induction ks arbitrary: i)
  case Nil
  then show ?case by simp
next
  case (Cons k ks)
  have "(j # q, m) \<in> set (kids_descendants i (k # ks)) \<longleftrightarrow>
          (j = i \<and> (q = [] \<and> m = k \<or> (q, m) \<in> set (descendants k)))
          \<or> (j # q, m) \<in> set (kids_descendants (Suc i) ks)"
    by auto
  also have "\<dots> \<longleftrightarrow>
          (j = i \<and> (q = [] \<and> m = k \<or> (q, m) \<in> set (descendants k)))
          \<or> (\<exists>l < length ks. j = Suc i + l \<and>
                (q = [] \<and> m = ks ! l \<or> (q, m) \<in> set (descendants (ks ! l))))"
    by (simp only: Cons.IH)
  also have "\<dots> \<longleftrightarrow>
          (\<exists>l < length (k # ks). j = i + l \<and>
             (q = [] \<and> m = (k # ks) ! l \<or> (q, m) \<in> set (descendants ((k # ks) ! l))))"
    (is "?A \<or> ?B \<longleftrightarrow> ?C")
  proof
    assume "?A \<or> ?B"
    then show ?C
    proof
      assume ?A
      then have "0 < length (k # ks) \<and> j = i + 0 \<and>
             (q = [] \<and> m = (k # ks) ! 0 \<or> (q, m) \<in> set (descendants ((k # ks) ! 0)))"
        by simp
      then show ?C by blast
    next
      assume ?B
      then obtain l where "l < length ks" "j = Suc i + l"
        "q = [] \<and> m = ks ! l \<or> (q, m) \<in> set (descendants (ks ! l))" by blast
      then have "Suc l < length (k # ks) \<and> j = i + Suc l \<and>
             (q = [] \<and> m = (k # ks) ! Suc l \<or> (q, m) \<in> set (descendants ((k # ks) ! Suc l)))"
        by simp
      then show ?C by blast
    qed
  next
    assume ?C
    then obtain l where l: "l < length (k # ks)" "j = i + l"
        "q = [] \<and> m = (k # ks) ! l \<or> (q, m) \<in> set (descendants ((k # ks) ! l))" by blast
    show "?A \<or> ?B"
    proof (cases l)
      case 0
      with l show ?thesis by simp
    next
      case (Suc l')
      with l have "l' < length ks \<and> j = Suc i + l' \<and>
             (q = [] \<and> m = ks ! l' \<or> (q, m) \<in> set (descendants (ks ! l')))"
        by simp
      then show ?thesis by blast
    qed
  qed
  finally show ?case .
qed

lemma descendants_iff:
  "(j # q, m) \<in> set (descendants (Tag n a ks)) \<longleftrightarrow>
     j < length ks \<and> (q = [] \<and> m = ks ! j \<or> (q, m) \<in> set (descendants (ks ! j)))"
  using kids_descendants_iff[of j q m 0 ks] by auto

lemma kids_descendants_nonempty_path: "([], m) \<notin> set (kids_descendants i ks)"
  by (induction ks arbitrary: i) auto

lemma descendants_nonempty_path: "([], m) \<notin> set (descendants k)"
  by (cases k) (simp_all add: kids_descendants_nonempty_path)

lemma has_descendant_child:
  assumes "j < length ks" and "P (ks ! j) \<or> has_descendant P (ks ! j)"
  shows "has_descendant P (Tag n a ks)"
proof -
  from assms(2) show ?thesis
  proof
    assume "P (ks ! j)"
    moreover have "([j], ks ! j) \<in> set (descendants (Tag n a ks))"
      unfolding descendants_iff using assms(1) by simp
    ultimately show ?thesis unfolding has_descendant_def by force
  next
    assume "has_descendant P (ks ! j)"
    then obtain q m where qm: "(q, m) \<in> set (descendants (ks ! j))" and pm: "P m"
      unfolding has_descendant_def by force
    then have "(j # q, m) \<in> set (descendants (Tag n a ks))"
      unfolding descendants_iff using assms(1) by simp
    with pm show ?thesis unfolding has_descendant_def by force
  qed
qed

lemma has_descendant_update:
  assumes "(q, m) \<in> set (descendants k)" and "is_tag m" and "P c"
    and f: "\<And>x. is_tag x \<Longrightarrow> \<exists>n a ks. f x = Tag n a ks \<and> c \<in> set ks"
  shows "has_descendant P (update_at q f k)"
  using assms(1)
proof (induction q arbitrary: k)
  case Nil
  then show ?case by (simp add: descendants_nonempty_path)
next
  case (Cons j q)
  from Cons.prems obtain n a ks where k: "k = Tag n a ks"
    by (cases k) auto
  from Cons.prems have j: "j < length ks"
    and d: "q = [] \<and> m = ks ! j \<or> (q, m) \<in> set (descendants (ks ! j))"
    unfolding k descendants_iff by auto
  have u: "update_at (j # q) f k = Tag n a (ks[j := update_at q f (ks ! j)])"
    using j by (simp add: k)
  have "has_descendant P (update_at q f (ks ! j))"
  proof (cases "q = []")
    case True
    with d descendants_nonempty_path have m: "m = ks ! j" by auto
    from f[OF assms(2)] obtain n' a' ks' where t: "f m = Tag n' a' ks'" and c: "c \<in> set ks'"
      by blast
    from c obtain l where l: "l < length ks'" "ks' ! l = c" by (auto simp: in_set_conv_nth)
    have "has_descendant P (Tag n' a' ks')"
      by (rule has_descendant_child[of l]) (simp_all add: l assms(3))
    then show ?thesis using True m t by simp
  next
    case False
    with d have "(q, m) \<in> set (descendants (ks ! j))" by simp
    then show ?thesis by (rule Cons.IH)
  qed
  then show ?case
    unfolding u using j by (intro has_descendant_child[of j]) simp_all
qed

lemma tag_insert_child: "is_tag x \<Longrightarrow> \<exists>n a ks. tag_insert i c x = Tag n a ks \<and> c \<in> set ks"
  by (cases x) simp_all

lemma tag_append_child: "is_tag x \<Longrightarrow> \<exists>n a ks. tag_append c x = Tag n a ks \<and> c \<in> set ks"
  by (cases x) simp_all

lemma has_descendant_append:
  assumes "is_tag k" and "P c"
  shows "has_descendant P (tag_append c k)"
proof -
  from assms(1) obtain n a ks where k: "k = Tag n a ks" by (cases k) auto
  have "has_descendant P (Tag n a (ks @ [c]))"
    by (rule has_descendant_child[of "length ks"]) (simp_all add: assms(2))
  then show ?thesis by (simp add: k)
qed

lemma is_named_is_tag: "is_named nm k \<Longrightarrow> is_tag k"
  by (cases k) simp_all

lemma new_abstract_div_container:
  "is_named ''div'' (new_abstract_div a) \<and> has_class ''list-abstract'' (new_abstract_div a)"
  by (simp add: new_abstract_div_def has_class_def split_ws_def isspace_def)

lemma splice_abstract_container:
  assumes "is_tag dd" and "splice_abstract dd (new_abstract_div a) = Inr dd'"
  shows "find_tag (\<lambda>k. is_named ''div'' k \<and> has_class ''list-abstract'' k) dd' \<noteq> None"
proof -
  let ?P = "\<lambda>k. is_named ''div'' k \<and> has_class ''list-abstract'' k"
  let ?c = "new_abstract_div a"
  have c: "?P ?c" by (rule new_abstract_div_container)
  have "has_descendant ?P dd'"
  proof (cases "find_tag (\<lambda>k. is_named ''div'' k \<and> has_class ''meta'' k) dd")
    case None
    with assms(2) have "dd' = tag_append ?c dd"
      by (simp add: splice_abstract_def)
    then show ?thesis using has_descendant_append[OF assms(1), of ?P, OF c] by simp
  next
    case (Some qm)
    obtain q meta_div where qm: "qm = (q, meta_div)" by (cases qm)
    from find_tag_SomeD[OF Some[unfolded qm]]
    have m: "(q, meta_div) \<in> set (descendants dd)" and t: "is_tag meta_div"
      by (auto dest: is_named_is_tag)
    from assms(2) Some qm consider
      (ins) i where "dd' = update_at q (tag_insert i ?c) dd"
      | (app) "dd' = update_at q (tag_append ?c) dd"
      by (auto simp: splice_abstract_def split: option.splits sum.splits)
    then show ?thesis
    proof cases
      case ins
      have "has_descendant ?P (update_at q (tag_insert i ?c) dd)"
        using m t c by (rule has_descendant_update) (rule tag_insert_child)
      with ins show ?thesis by simp
    next
      case app
      have "has_descendant ?P (update_at q (tag_append ?c) dd)"
        using m t c by (rule has_descendant_update) (rule tag_append_child)
      with app show ?thesis by simp
    qed
  qed
  then show ?thesis by (simp only: find_tag_has_descendant)
qed


lemma find_next_sibling_named:
  assumes "find_next_sibling soup p nm = Some (pdd, dd)"
  shows "is_named nm dd"
proof -
  from assms obtain parent j js where
    f: "filter (\<lambda>j. is_named nm (contents parent ! j))
          [Suc (last p) ..< length (contents parent)] = j # js"
    and d: "dd = contents parent ! j"
    by (auto simp: find_next_sibling_def split: if_splits option.splits list.splits)
  have "j \<in> set (filter (\<lambda>j. is_named nm (contents parent ! j))
          [Suc (last p) ..< length (contents parent)])"
    unfolding f by simp
  then show ?thesis using d by simp
qed

lemma derive_dt_detail:
  assumes "derive_dt soup pd = Some (aid, t, hl, pdd, dd)"
  shows "is_tag dd"
proof -
  obtain p dt where pd: "pd = (p, dt)" by (cases pd)
  from assms have "find_next_sibling soup p ''dd'' = Some (pdd, dd)"
    by (auto simp: derive_dt_def pd split: option.splits)
  then show ?thesis by (blast dest: find_next_sibling_named is_named_is_tag)
qed

lemma enrich_dt_inserts_container:
  assumes "enrich_dt session k st = Inr st'"
    and "fetched st' = fetched st @ [aid]"
    and "truthy (get_abstract session aid)"
  shows "\<exists>pdd dd'. es_soup st' = update_at pdd (\<lambda>d. dd') (es_soup st)
           \<and> find_tag (\<lambda>k. is_named ''div'' k \<and> has_class ''list-abstract'' k) dd' \<noteq> None"
proof -
  let ?C = "\<lambda>k. is_named ''div'' k \<and> has_class ''list-abstract'' k"
  from assms(1,2) obtain pd rest aid' t hl pdd dd where
    dr: "drop k (find_all (is_named ''dt'') (es_soup st)) = pd # rest" and
    de: "derive_dt (es_soup st) pd = Some (aid', t, hl, pdd, dd)" and
    ex: "find_tag ?C dd = None"
    by (auto simp: enrich_dt_def Let_def split: list.splits option.splits sum.splits if_splits)
  from assms(1,2) dr de ex have a: "aid' = aid"
    by (auto simp: enrich_dt_def Let_def split: sum.splits if_splits)
  from assms(3) obtain x where x: "get_abstract session aid = Some x" "x \<noteq> []"
    by (cases "get_abstract session aid") auto
  from assms(1) dr de ex a x obtain dd' where
    sp: "splice_abstract dd (new_abstract_div x) = Inr dd'" and
    so: "es_soup st' = update_at pdd (\<lambda>d. dd') (es_soup st)"
    by (auto simp: enrich_dt_def Let_def split: sum.splits)
  have "is_tag dd" using de by (rule derive_dt_detail)
  from splice_abstract_container[OF this sp] so show ?thesis by blast
qed

lemma filter_index_drop:
  "map ((!) ks) (filter (\<lambda>j. P (ks ! j)) [a ..< length ks]) = filter P (drop a ks)"
proof -
  have "drop a ks = map ((!) ks) [a ..< length ks]"
    by (rule nth_equalityI) auto
  then show ?thesis by (simp add: filter_map comp_def)
qed

lemma filter_weaker_head:
  assumes "filter P xs = x # rest" and "Q x" and "\<And>y. Q y \<Longrightarrow> P y"
  shows "\<exists>rest'. filter Q xs = x # rest'"
proof -
  have "filter Q (filter P xs) = filter Q xs"
    using assms(3) by (induction xs) auto
  then have "filter Q xs = filter Q (filter P xs)" by simp
  also have "\<dots> = x # filter Q rest" using assms(1,2) by simp
  finally show ?thesis by blast
qed

lemma next_element_detail:
  assumes "next_element soup p = Some dd" and "is_named nm dd"
  shows "\<exists>pdd. find_next_sibling soup p nm = Some (pdd, dd)"
proof -
  from assms(1) obtain parent rest where
    p: "p \<noteq> []" and n: "node_at soup (butlast p) = Some parent" and
    f: "filter is_tag (drop (Suc (last p)) (contents parent)) = dd # rest"
    by (auto simp: next_element_def split: if_splits option.splits list.splits)
  let ?ks = "contents parent"
  let ?js = "filter (\<lambda>j. is_named nm (?ks ! j)) [Suc (last p) ..< length ?ks]"
  from filter_weaker_head[of is_tag _ dd rest "is_named nm", OF f assms(2)] obtain rest' where
    "filter (is_named nm) (drop (Suc (last p)) ?ks) = dd # rest'"
    by (auto dest: is_named_is_tag)
  then have m: "map ((!) ?ks) ?js = dd # rest'"
    by (simp add: filter_index_drop)
  then obtain j js where js: "?js = j # js" and d: "?ks ! j = dd"
    by (cases ?js) auto
  show ?thesis
    using p n js d by (simp add: find_next_sibling_def)
qed

lemma adjacent_pair_well_formed:
  assumes "adjacent_pair soup pd"
  shows "well_formed soup pd"
proof -
  obtain p dt where pd: "pd = (p, dt)" by (cases pd)
  from assms obtain dd t where
    l: "has_descendant (\<lambda>k. is_named ''a'' k \<and> href_search pat_abs k) dt" and
    n: "next_element soup p = Some dd" and d: "is_named ''dd'' dd" and
    t: "title_of_dd dd = Some t" "5 \<le> length t"
    by (auto simp: adjacent_pair_def pd split: option.splits)
  from next_element_detail[OF n d] obtain pdd where
    "find_next_sibling soup p ''dd'' = Some (pdd, dd)" by blast
  with l t show ?thesis by (simp add: well_formed_def pd)
qed

section \<open>Facts about insertions\<close>

lemma kids_descendants_append:
  "kids_descendants i (xs @ ys) = kids_descendants i xs @ kids_descendants (i + length xs) ys"
  by (induction xs arbitrary: i) auto

lemma kids_descendants_first:
  "(r, x) \<in> set (kids_descendants i ks) \<Longrightarrow> \<exists>y r'. r = y # r' \<and> i \<le> y \<and> y < i + length ks"
proof (cases r)
  case Nil
  assume "(r, x) \<in> set (kids_descendants i ks)"
  with Nil show ?thesis by (simp add: kids_descendants_nonempty_path)
next
  case (Cons y r')
  assume "(r, x) \<in> set (kids_descendants i ks)"
  with Cons show ?thesis by (auto simp: kids_descendants_iff)
qed

lemma kids_descendants_Suc:
  "kids_descendants (Suc i) ks =
     map (\<lambda>(r, x). (case r of [] \<Rightarrow> [] | y # r' \<Rightarrow> Suc y # r', x)) (kids_descendants i ks)"
  by (induction ks arbitrary: i) (auto simp: case_prod_beta)

lemma descendants_split:
  assumes "j < length ks"
  shows "descendants (Tag n a ks) =
           kids_descendants 0 (take j ks)
           @ ([j], ks ! j) # map (\<lambda>(p, d). (j # p, d)) (descendants (ks ! j))
           @ kids_descendants (Suc j) (drop (Suc j) ks)"
proof -
  have "ks = take j ks @ ks ! j # drop (Suc j) ks"
    using assms by (simp add: id_take_nth_drop)
  then have "kids_descendants 0 ks =
               kids_descendants 0 (take j ks @ ks ! j # drop (Suc j) ks)" by simp
  also have "\<dots> = kids_descendants 0 (take j ks)
           @ kids_descendants j (ks ! j # drop (Suc j) ks)"
    using assms by (simp add: kids_descendants_append min_def)
  finally show ?thesis by simp
qed

lemma by_head_update: "by_head P \<Longrightarrow> q \<noteq> [] \<Longrightarrow> P (update_at q f x) = P x"
  by (cases q; cases x) (auto simp: by_head_def)

lemma by_head_insert: "by_head P \<Longrightarrow> P (tag_insert i c x) = P x"
  by (cases x) (auto simp: by_head_def)

lemma by_head_grown: "by_head P \<Longrightarrow> P (grown q i c r x) = P x"
proof (induction q i c r x rule: grown.induct)
  case (1 q i c x)
  then show ?case by (cases q) (simp_all add: by_head_insert by_head_update)
qed simp_all


lemma map_pair_id:
  assumes "\<And>r x. (r, x) \<in> set xs \<Longrightarrow> f r x = (r, x)"
  shows "map (\<lambda>(r, x). f r x) xs = xs"
  using assms by (induction xs) auto

lemma map_pair_cong:
  assumes "\<And>r x. (r, x) \<in> set xs \<Longrightarrow> f r x = g r x"
  shows "map (\<lambda>(r, x). f r x) xs = map (\<lambda>(r, x). g r x) xs"
  using assms by (induction xs) auto

lemma filter_snd_map:
  assumes "\<And>r x. snd (g (r, x)) = x"
  shows "filter (\<lambda>(p, d). P d) (map g xs) = map g (filter (\<lambda>(p, d). P d) xs)"
  using assms by (induction xs) (auto simp: case_prod_beta)

lemma find_all_insert_here:
  assumes "\<not> P c" and "\<forall>x \<in> set (descendants c). \<not> P (snd x)" and "i \<le> length ks"
  shows "find_all P (Tag m a (take i ks @ [c] @ drop i ks)) =
           map (\<lambda>(r, x). (shifted [] i r, grown [] i c r x)) (find_all P (Tag m a ks))"
proof -
  let ?F = "filter (\<lambda>(p, d). P d)"
  let ?phi = "\<lambda>(r, x). (shifted [] i r, grown [] i c r x)"
  let ?bump = "\<lambda>(r, x). (case r of [] \<Rightarrow> [] | y # r' \<Rightarrow> Suc y # r', x)"
  let ?A = "kids_descendants 0 (take i ks)"
  let ?B = "kids_descendants i (drop i ks)"
  have len: "length (take i ks) = i" using assms(3) by simp
  have mn: "min (length ks) i = i" using assms(3) by simp
  have new: "kids_descendants 0 (take i ks @ [c] @ drop i ks) =
               ?A @ ([i], c) # map (\<lambda>(p, d). (i # p, d)) (descendants c)
               @ kids_descendants (Suc i) (drop i ks)"
    by (simp add: kids_descendants_append mn)
  have old: "kids_descendants 0 ks = ?A @ ?B"
    using kids_descendants_append[of 0 "take i ks" "drop i ks"] by (simp add: mn)
  have c0: "?F (map (\<lambda>(p, d). (i # p, d)) (descendants c)) = []"
    using assms(2) by (auto simp: filter_empty_conv)
  have fB: "?F (kids_descendants (Suc i) (drop i ks)) = map ?bump (?F ?B)"
    unfolding kids_descendants_Suc by (rule filter_snd_map) (simp add: case_prod_beta)
  have pA: "map ?phi (?F ?A) = ?F ?A"
  proof (rule map_pair_id)
    fix r x assume "(r, x) \<in> set (?F ?A)"
    then have "(r, x) \<in> set ?A" by simp
    from kids_descendants_first[OF this] obtain y r' where "r = y # r'" "y < i"
      using len by auto
    then show "(shifted [] i r, grown [] i c r x) = (r, x)" by simp
  qed
  have pB: "map ?phi (?F ?B) = map ?bump (?F ?B)"
  proof -
    have "map (\<lambda>(r, x). (shifted [] i r, grown [] i c r x)) (?F ?B) =
          map (\<lambda>(r, x). (case r of [] \<Rightarrow> [] | y # r' \<Rightarrow> Suc y # r', x)) (?F ?B)"
    proof (rule map_pair_cong)
      fix r x assume "(r, x) \<in> set (?F ?B)"
      then have "(r, x) \<in> set ?B" by simp
      from kids_descendants_first[OF this] obtain y r' where "r = y # r'" "i \<le> y"
        by auto
      then show "(shifted [] i r, grown [] i c r x) = (case r of [] \<Rightarrow> [] | y # r' \<Rightarrow> Suc y # r', x)"
        by simp
    qed
    then show ?thesis .
  qed
  have "find_all P (Tag m a (take i ks @ [c] @ drop i ks)) =
          ?F ?A @ map ?bump (?F ?B)"
    unfolding find_all_def descendants.simps new
    using assms(1) by (simp add: c0 fB)
  also have "\<dots> = map ?phi (?F ?A) @ map ?phi (?F ?B)"
    by (simp only: pA pB)
  also have "\<dots> = map ?phi (find_all P (Tag m a ks))"
    unfolding find_all_def descendants.simps old by simp
  finally show ?thesis .
qed


lemma find_all_insert:
  assumes "by_head P" and "\<not> P c" and "\<forall>x \<in> set (descendants c). \<not> P (snd x)"
  shows "node_at T q = Some (Tag m a ks) \<Longrightarrow> i \<le> length ks \<Longrightarrow>
         find_all P (update_at q (tag_insert i c) T) =
           map (\<lambda>(r, x). (shifted q i r, grown q i c r x)) (find_all P T)"
proof (induction q arbitrary: T)
  case Nil
  then have T: "T = Tag m a ks" by simp
  show ?case
    unfolding T using find_all_insert_here[OF assms(2,3) Nil.prems(2), of m a] by simp
next
  case (Cons j q)
  let ?F = "filter (\<lambda>(p, d). P d)"
  let ?phi = "\<lambda>(r, x). (shifted (j # q) i r, grown (j # q) i c r x)"
  let ?phi' = "\<lambda>(r, x). (shifted q i r, grown q i c r x)"
  let ?pre = "\<lambda>(p, d). (j # p, d)"
  from Cons.prems(1) obtain n' a' ks' where T: "T = Tag n' a' ks'"
    by (cases T) auto
  from Cons.prems(1) have j: "j < length ks'" and K: "node_at (ks' ! j) q = Some (Tag m a ks)"
    unfolding T by (auto split: if_splits)
  let ?K = "ks' ! j"
  let ?K1 = "update_at q (tag_insert i c) ?K"
  let ?A = "kids_descendants 0 (take j ks')"
  let ?B = "kids_descendants (Suc j) (drop (Suc j) ks')"
  have T1: "update_at (j # q) (tag_insert i c) T = Tag n' a' (ks'[j := ?K1])"
    using j by (simp add: T)
  have IH: "find_all P ?K1 = map ?phi' (find_all P ?K)"
    using Cons.IH[OF K Cons.prems(2)] .
  have j1: "j < length (ks'[j := ?K1])" using j by simp
  have d1: "descendants (Tag n' a' (ks'[j := ?K1])) =
              ?A @ ([j], ?K1) # map ?pre (descendants ?K1) @ ?B"
    using descendants_split[OF j1, of n' a'] j by simp
  have d0: "descendants (Tag n' a' ks') =
              ?A @ ([j], ?K) # map ?pre (descendants ?K) @ ?B"
    using descendants_split[OF j, of n' a'] .
  have pK: "P ?K1 = P ?K"
    using by_head_grown[OF assms(1), of q i c "[]" ?K] by simp
  have pA: "map ?phi (?F ?A) = ?F ?A"
  proof (rule map_pair_id)
    fix r x assume "(r, x) \<in> set (?F ?A)"
    then have "(r, x) \<in> set ?A" by simp
    from kids_descendants_first[OF this] obtain y r' where "r = y # r'" "y < j"
      using j by auto
    then show "(shifted (j # q) i r, grown (j # q) i c r x) = (r, x)" by simp
  qed
  have pB: "map ?phi (?F ?B) = ?F ?B"
  proof (rule map_pair_id)
    fix r x assume "(r, x) \<in> set (?F ?B)"
    then have "(r, x) \<in> set ?B" by simp
    from kids_descendants_first[OF this] obtain y r' where "r = y # r'" "Suc j \<le> y"
      by auto
    then show "(shifted (j # q) i r, grown (j # q) i c r x) = (r, x)" by simp
  qed
  have fm: "\<And>xs. ?F (map ?pre xs) = map ?pre (?F xs)"
    by (rule filter_snd_map) (simp add: case_prod_beta)
  have pm: "\<And>xs. map ?phi (map ?pre xs) = map ?pre (map ?phi' xs)"
    by (simp add: case_prod_beta)
  have mid1: "?F (map ?pre (descendants ?K1)) = map ?pre (map ?phi' (find_all P ?K))"
    using IH by (simp add: fm find_all_def)
  have mid0: "map ?phi (?F (map ?pre (descendants ?K))) = map ?pre (map ?phi' (find_all P ?K))"
    by (simp only: fm pm find_all_def)
  have "find_all P (update_at (j # q) (tag_insert i c) T) =
          ?F ?A @ ?F [([j], ?K1)] @ ?F (map ?pre (descendants ?K1)) @ ?F ?B"
    unfolding T1 find_all_def d1 by simp
  also have "\<dots> = ?F ?A @ map ?phi (?F [([j], ?K)]) @ map ?pre (map ?phi' (find_all P ?K)) @ ?F ?B"
    unfolding mid1 using pK by simp
  also have "\<dots> = map ?phi (?F ?A) @ map ?phi (?F [([j], ?K)])
                   @ map ?phi (?F (map ?pre (descendants ?K))) @ map ?phi (?F ?B)"
    by (simp only: pA pB mid0)
  also have "\<dots> = map ?phi (find_all P T)"
    unfolding T find_all_def d0 by simp
  finally show ?case .
qed

lemma node_at_insert:
  "node_at T q = Some (Tag m a ks) \<Longrightarrow> i \<le> length ks \<Longrightarrow> node_at T r = Some x \<Longrightarrow>
   node_at (update_at q (tag_insert i c) T) (shifted q i r) = Some (grown q i c r x)"
proof (induction q arbitrary: T r)
  case Nil
  then have T: "T = Tag m a ks" by simp
  show ?case
  proof (cases r)
    case Nil
    with Nil.prems show ?thesis by simp
  next
    case (Cons y r')
    with Nil.prems(3) have y: "y < length ks" and x: "node_at (ks ! y) r' = Some x"
      unfolding T by (auto split: if_splits)
    have "(take i ks @ c # drop i ks) ! (if i \<le> y then Suc y else y) = ks ! y"
      using y Nil.prems(2) by (auto simp: nth_append min_def Suc_diff_le)
    then show ?thesis
      using y x Nil.prems(2) by (auto simp: T Cons)
  qed
next
  case (Cons j q)
  from Cons.prems(1) obtain n' a' ks' where T: "T = Tag n' a' ks'"
    by (cases T) auto
  from Cons.prems(1) have j: "j < length ks'" and K: "node_at (ks' ! j) q = Some (Tag m a ks)"
    unfolding T by (auto split: if_splits)
  show ?case
  proof (cases r)
    case Nil
    with Cons.prems(3) show ?thesis by simp
  next
    case (Cons y r')
    with Cons.prems(3) have y: "y < length ks'" and x: "node_at (ks' ! y) r' = Some x"
      unfolding T by (auto split: if_splits)
    show ?thesis
    proof (cases "y = j")
      case True
      from Cons.IH[OF K Cons.prems(2) x[unfolded True]] j
      show ?thesis by (simp add: T Cons True)
    next
      case False
      with y x j show ?thesis by (simp add: T Cons)
    qed
  qed
qed

lemma shifted_nonempty: "r \<noteq> [] \<Longrightarrow> shifted q i r \<noteq> []"
  by (cases q; cases r) auto

lemma find_next_sibling_top:
  "find_next_sibling (Tag n a ks) [x] nm =
     (case filter (\<lambda>j. is_named nm (ks ! j)) [Suc x ..< length ks] of
        [] \<Rightarrow> None | j # js \<Rightarrow> Some ([j], ks ! j))"
  by (simp add: find_next_sibling_def split: list.splits)

lemma find_next_sibling_deeper:
  assumes "r \<noteq> []" and "y < length ks"
  shows "find_next_sibling (Tag n a ks) (y # r) nm =
           map_option (\<lambda>(pd, d). (y # pd, d)) (find_next_sibling (ks ! y) r nm)"
  using assms
  by (auto simp: find_next_sibling_def split: option.splits list.splits)

lemma upt_insert_filter:
  assumes "\<not> Q i" and "i \<le> n"
  shows "filter Q [Suc (if i \<le> x then Suc x else x) ..< Suc n] =
         filter Q (map (\<lambda>y. if i \<le> y then Suc y else y) [Suc x ..< n])"
proof (cases "i \<le> x")
  case True
  have "map (\<lambda>y. if i \<le> y then Suc y else y) [Suc x ..< n] = map Suc [Suc x ..< n]"
    using True by (simp cong: map_cong)
  also have "\<dots> = [Suc (Suc x) ..< Suc n]" by (simp add: map_Suc_upt)
  finally have m: "map (\<lambda>y. if i \<le> y then Suc y else y) [Suc x ..< n] = [Suc (Suc x) ..< Suc n]" .
  have e: "(if i \<le> x then Suc x else x) = Suc x" using True by simp
  show ?thesis by (simp only: m e)
next
  case False
  then have xi: "Suc x \<le> i" by simp
  have b: "[Suc x ..< n] = [Suc x ..< i] @ [i ..< n]"
    using upt_add_eq_append[OF xi, of "n - i"] assms(2) by simp
  have "[Suc x ..< Suc n] = [Suc x ..< i] @ [i ..< Suc n]"
    using upt_add_eq_append[OF xi, of "Suc n - i"] assms(2) by simp
  moreover have "[i ..< Suc n] = i # [Suc i ..< Suc n]"
    using assms(2) by (simp add: upt_conv_Cons del: upt_Suc)
  ultimately have a: "[Suc x ..< Suc n] = [Suc x ..< i] @ i # [Suc i ..< Suc n]"
    by (simp only:)
  have c: "map (\<lambda>y. if i \<le> y then Suc y else y) [Suc x ..< i] = [Suc x ..< i]"
    by (rule map_idI) simp
  have "map (\<lambda>y. if i \<le> y then Suc y else y) [i ..< n] = map Suc [i ..< n]"
    by (simp cong: map_cong)
  then have d: "map (\<lambda>y. if i \<le> y then Suc y else y) [i ..< n] = [Suc i ..< Suc n]"
    by (simp add: map_Suc_upt)
  have e: "(if i \<le> x then Suc x else x) = x" using False by simp
  have "filter Q [Suc x ..< Suc n] = filter Q [Suc x ..< i] @ filter Q [Suc i ..< Suc n]"
    using assms(1) by (simp only: a filter_append filter.simps if_False)
  also have "\<dots> = filter Q (map (\<lambda>y. if i \<le> y then Suc y else y) [Suc x ..< n])"
    by (simp only: b map_append c d filter_append)
  finally show ?thesis by (simp only: e)
qed


lemma nth_after_insert:
  assumes "i \<le> length ks" and "j < length ks"
  shows "(take i ks @ [c] @ drop i ks) ! (if i \<le> j then Suc j else j) = ks ! j"
  using assms by (auto simp: nth_append min_def Suc_diff_le)

lemma find_next_sibling_insert_here:
  assumes "\<not> is_named nm c" and "i \<le> length ks"
  shows "find_next_sibling (Tag m a (take i ks @ [c] @ drop i ks))
           [if i \<le> x then Suc x else x] nm =
         map_option (\<lambda>(r, d). (shifted [] i r, grown [] i c r d))
           (find_next_sibling (Tag m a ks) [x] nm)"
proof -
  let ?ks1 = "take i ks @ [c] @ drop i ks"
  let ?sh = "\<lambda>y. if i \<le> y then Suc y else y"
  let ?old = "filter (\<lambda>j. is_named nm (ks ! j)) [Suc x ..< length ks]"
  have len: "length ?ks1 = Suc (length ks)" by simp
  have ci: "?ks1 ! i = c" using assms(2) by (simp add: nth_append)
  have "filter (\<lambda>j. is_named nm (?ks1 ! j)) [Suc (?sh x) ..< length ?ks1] =
        filter (\<lambda>j. is_named nm (?ks1 ! j)) (map ?sh [Suc x ..< length ks])"
  proof -
    have "\<not> is_named nm (?ks1 ! i)" using assms(1) ci by simp
    from upt_insert_filter[of "\<lambda>j. is_named nm (?ks1 ! j)" i "length ks" x, OF this assms(2)]
    show ?thesis unfolding len .
  qed
  also have "\<dots> = map ?sh (filter (\<lambda>j. is_named nm (?ks1 ! ?sh j)) [Suc x ..< length ks])"
    by (simp add: filter_map comp_def)
  also have "filter (\<lambda>j. is_named nm (?ks1 ! ?sh j)) [Suc x ..< length ks] = ?old"
  proof (rule filter_cong[OF refl])
    fix j assume "j \<in> set [Suc x ..< length ks]"
    then have "j < length ks" by simp
    from nth_after_insert[OF assms(2) this, of c]
    show "is_named nm (?ks1 ! ?sh j) = is_named nm (ks ! j)" by simp
  qed
  finally have f: "filter (\<lambda>j. is_named nm (?ks1 ! j)) [Suc (?sh x) ..< length ?ks1] =
                     map ?sh ?old" .
  have L: "find_next_sibling (Tag m a ?ks1) [?sh x] nm =
             (case map ?sh ?old of [] \<Rightarrow> None | j # js \<Rightarrow> Some ([j], ?ks1 ! j))"
    unfolding f[symmetric] by (rule find_next_sibling_top)
  have R: "find_next_sibling (Tag m a ks) [x] nm =
             (case ?old of [] \<Rightarrow> None | j # js \<Rightarrow> Some ([j], ks ! j))"
    by (rule find_next_sibling_top)
  show ?thesis
  proof (cases ?old)
    case Nil
    show ?thesis unfolding L R Nil by simp
  next
    case (Cons j js)
    then have "j \<in> set ?old" by simp
    then have j: "j < length ks" by simp
    have n: "?ks1 ! ?sh j = ks ! j" using nth_after_insert[OF assms(2) j, of c] .
    show ?thesis unfolding L R Cons using n by simp
  qed
qed

lemma find_next_sibling_insert:
  assumes "\<not> is_named nm c"
  shows "node_at T q = Some (Tag m a ks) \<Longrightarrow> i \<le> length ks \<Longrightarrow> node_at T p \<noteq> None \<Longrightarrow>
         find_next_sibling (update_at q (tag_insert i c) T) (shifted q i p) nm =
           map_option (\<lambda>(r, x). (shifted q i r, grown q i c r x)) (find_next_sibling T p nm)"
proof (induction q arbitrary: T p)
  case Nil
  then have T: "T = Tag m a ks" by simp
  show ?case
  proof (cases p)
    case Nil
    then show ?thesis by (simp add: find_next_sibling_def)
  next
    case (Cons y r)
    with Nil.prems(3) have y: "y < length ks" unfolding T by (auto split: if_splits)
    show ?thesis
    proof (cases "r = []")
      case True
      note h = find_next_sibling_insert_here[OF assms Nil.prems(2), of m a y]
      show ?thesis
      proof (cases "i \<le> y")
        case True
        with h \<open>r = []\<close> show ?thesis by (simp add: T Cons)
      next
        case False
        with h \<open>r = []\<close> show ?thesis by (simp add: T Cons)
      qed
    next
      case False
      let ?y1 = "if i \<le> y then Suc y else y"
      have y1: "?y1 < length (take i ks @ [c] @ drop i ks)"
        using y Nil.prems(2) by (auto simp: min_def)
      have n: "(take i ks @ [c] @ drop i ks) ! ?y1 = ks ! y"
        using nth_after_insert[OF Nil.prems(2) y, of c] .
      have "find_next_sibling (Tag m a (take i ks @ [c] @ drop i ks)) (?y1 # r) nm =
              map_option (\<lambda>(pd, d). (?y1 # pd, d)) (find_next_sibling (ks ! y) r nm)"
        using find_next_sibling_deeper[OF False y1, of m a nm] n by simp
      moreover have "find_next_sibling (Tag m a ks) (y # r) nm =
              map_option (\<lambda>(pd, d). (y # pd, d)) (find_next_sibling (ks ! y) r nm)"
        using find_next_sibling_deeper[OF False y, of m a nm] .
      ultimately show ?thesis
        by (cases "find_next_sibling (ks ! y) r nm") (auto simp: T Cons)
    qed
  qed
next
  case (Cons j q)
  from Cons.prems(1) obtain n' a' ks' where T: "T = Tag n' a' ks'"
    by (cases T) auto
  from Cons.prems(1) have j: "j < length ks'" and K: "node_at (ks' ! j) q = Some (Tag m a ks)"
    unfolding T by (auto split: if_splits)
  let ?K = "ks' ! j"
  let ?K1 = "update_at q (tag_insert i c) ?K"
  have T1: "update_at (j # q) (tag_insert i c) T = Tag n' a' (ks'[j := ?K1])"
    using j by (simp add: T)
  have bh: "by_head (is_named nm)" by (simp add: by_head_def)
  have nK: "is_named nm ?K1 = is_named nm ?K"
    using by_head_grown[OF bh, of q i c "[]" ?K] by simp
  show ?case
  proof (cases p)
    case Nil
    then show ?thesis by (simp add: find_next_sibling_def)
  next
    case (Cons y r)
    with Cons.prems(3) have y: "y < length ks'" and v: "node_at (ks' ! y) r \<noteq> None"
      unfolding T by (auto split: if_splits)
    show ?thesis
    proof (cases "r = []")
      case True
      have same: "filter (\<lambda>l. is_named nm (ks'[j := ?K1] ! l)) [Suc y ..< length ks'] =
                  filter (\<lambda>l. is_named nm (ks' ! l)) [Suc y ..< length ks']"
      proof (rule filter_cong[OF refl])
        fix l assume "l \<in> set [Suc y ..< length ks']"
        then show "is_named nm (ks'[j := ?K1] ! l) = is_named nm (ks' ! l)"
          using nK by (cases "l = j") auto
      qed
      have sh: "shifted (j # q) i [y] = [y]" by simp
      show ?thesis
      proof (cases "filter (\<lambda>l. is_named nm (ks' ! l)) [Suc y ..< length ks']")
        case Nil
        with same show ?thesis
          unfolding T1 Cons True sh T by (simp add: find_next_sibling_top)
      next
        case (Cons l ls)
        then have "l \<in> set (filter (\<lambda>l. is_named nm (ks' ! l)) [Suc y ..< length ks'])" by simp
        then have l: "l < length ks'" by simp
        have g: "grown (j # q) i c [l] (ks' ! l) = ks'[j := ?K1] ! l"
          using l by (cases "l = j") auto
        from same Cons g l j show ?thesis
          unfolding T1 \<open>p = y # r\<close> True sh T by (simp add: find_next_sibling_top)
      qed
    next
      case False
      have d0: "find_next_sibling (Tag n' a' ks') (y # r) nm =
              map_option (\<lambda>(pd, d). (y # pd, d)) (find_next_sibling (ks' ! y) r nm)"
        using find_next_sibling_deeper[OF False y, of n' a' nm] .
      show ?thesis
      proof (cases "y = j")
        case True
        have ne: "shifted q i r \<noteq> []" using False by (rule shifted_nonempty)
        have j1: "j < length (ks'[j := ?K1])" using j by simp
        have d1: "find_next_sibling (Tag n' a' (ks'[j := ?K1])) (j # shifted q i r) nm =
              map_option (\<lambda>(pd, d). (j # pd, d)) (find_next_sibling ?K1 (shifted q i r) nm)"
          using find_next_sibling_deeper[OF ne j1, of n' a' nm] j by simp
        have IH: "find_next_sibling ?K1 (shifted q i r) nm =
                    map_option (\<lambda>(r, x). (shifted q i r, grown q i c r x))
                      (find_next_sibling ?K r nm)"
          using Cons.IH[OF K Cons.prems(2)] v True by simp
        show ?thesis
          unfolding T1 Cons T using d0 d1 IH True j
          by (cases "find_next_sibling ?K r nm") auto
      next
        case False
        have y1: "y < length (ks'[j := ?K1])" using y by simp
        have d1: "find_next_sibling (Tag n' a' (ks'[j := ?K1])) (y # r) nm =
              map_option (\<lambda>(pd, d). (y # pd, d)) (find_next_sibling (ks' ! y) r nm)"
          using find_next_sibling_deeper[OF \<open>r \<noteq> []\<close> y1, of n' a' nm] False by simp
        show ?thesis
          unfolding T1 Cons T using d0 d1 False j y
          by (cases "find_next_sibling (ks' ! y) r nm") auto
      qed
    qed
  qed
qed

lemma descendants_node_at:
  "(r, y) \<in> set (descendants x) \<longleftrightarrow> r \<noteq> [] \<and> node_at x r = Some y"
proof (induction r arbitrary: x)
  case Nil
  then show ?case by (simp add: descendants_nonempty_path)
next
  case (Cons j r)
  show ?case
  proof (cases x)
    case (Tag n a ks)
    show ?thesis
    proof (cases "r = []")
      case True
      then show ?thesis
        unfolding Tag descendants_iff by (auto simp: descendants_nonempty_path)
    next
      case False
      then show ?thesis
        unfolding Tag descendants_iff using Cons.IH[of "ks ! j"] by auto
    qed
  qed simp_all
qed

lemma find_all_node_at: "(r, y) \<in> set (find_all P x) \<Longrightarrow> node_at x r = Some y \<and> P y"
  by (auto simp: find_all_def descendants_node_at)

lemma node_at_append:
  "node_at T (b @ r) = (case node_at T b of None \<Rightarrow> None | Some x \<Rightarrow> node_at x r)"
  by (induction b arbitrary: T) auto

lemma find_next_sibling_node_at:
  assumes "find_next_sibling T p nm = Some (pd, d)"
  shows "node_at T pd = Some d"
proof -
  from assms obtain parent j js where
    n: "node_at T (butlast p) = Some parent" and
    f: "filter (\<lambda>j. is_named nm (contents parent ! j))
          [Suc (last p) ..< length (contents parent)] = j # js" and
    pd: "pd = butlast p @ [j]" and d: "d = contents parent ! j"
    by (auto simp: find_next_sibling_def split: if_splits option.splits list.splits)
  have "j \<in> set (filter (\<lambda>j. is_named nm (contents parent ! j))
          [Suc (last p) ..< length (contents parent)])"
    unfolding f by simp
  then have "j < length (contents parent)" by simp
  then show ?thesis by (simp add: pd d node_at_append n)
qed

lemma update_at_append:
  "node_at T p = Some d \<Longrightarrow> update_at p (\<lambda>x. update_at q f d) T = update_at (p @ q) f T"
proof (induction p arbitrary: T)
  case Nil
  then show ?case by simp
next
  case (Cons j p)
  then show ?case by (cases T) (auto split: if_splits)
qed

lemma update_at_cong:
  "node_at x q = Some y \<Longrightarrow> f y = g y \<Longrightarrow> update_at q f x = update_at q g x"
proof (induction q arbitrary: x)
  case Nil
  then show ?case by simp
next
  case (Cons j q)
  then show ?case by (cases x) (auto split: if_splits)
qed

lemma grown_prefix: "grown (p @ q) i c p x = update_at q (tag_insert i c) x"
  by (induction p) auto

lemma grown_cases:
  "node_at T p = Some x \<Longrightarrow> node_at T q = Some (Tag m a ks) \<Longrightarrow>
   grown q i c p x = x
   \<or> (\<exists>q'. node_at x q' = Some (Tag m a ks) \<and> grown q i c p x = update_at q' (tag_insert i c) x)"
proof (induction q i c p x arbitrary: T rule: grown.induct)
  case (1 q i c x)
  then show ?case by auto
next
  case (2 i c y r x)
  then show ?case by simp
next
  case (3 j q i c y r x)
  show ?case
  proof (cases "y = j")
    case True
    from 3(2,3) obtain n' a' ks' where T: "T = Tag n' a' ks'" by (cases T) auto
    from 3(2,3) have "node_at (ks' ! j) r = Some x" "node_at (ks' ! j) q = Some (Tag m a ks)"
      unfolding T True by (auto split: if_splits)
    from 3(1)[OF True this] True show ?thesis by simp
  next
    case False
    then show ?thesis by simp
  qed
qed

lemma index_of_bound: "index_of x ks = Inr i \<Longrightarrow> i < length ks"
  by (induction ks arbitrary: i) (auto split: if_splits sum.splits)

lemma splice_as_insert:
  assumes "is_tag dd" and "splice_abstract dd c = Inr dd'"
  shows "\<exists>qm i m a ks. node_at dd qm = Some (Tag m a ks) \<and> i \<le> length ks
           \<and> dd' = update_at qm (tag_insert i c) dd"
proof (cases "find_tag (\<lambda>k. is_named ''div'' k \<and> has_class ''meta'' k) dd")
  case None
  from assms(1) obtain m a ks where dd: "dd = Tag m a ks" by (cases dd) auto
  from None assms(2) have "dd' = tag_append c dd" by (simp add: splice_abstract_def)
  then have "node_at dd [] = Some (Tag m a ks) \<and> length ks \<le> length ks
           \<and> dd' = update_at [] (tag_insert (length ks) c) dd"
    by (simp add: dd)
  then show ?thesis by blast
next
  case (Some qmm)
  obtain qm meta_div where qmm: "qmm = (qm, meta_div)" by (cases qmm)
  from find_tag_SomeD[OF Some[unfolded qmm]]
  have "(qm, meta_div) \<in> set (descendants dd)" and "is_tag meta_div"
    by (auto dest: is_named_is_tag)
  then have n: "node_at dd qm = Some meta_div" by (simp add: descendants_node_at)
  from \<open>is_tag meta_div\<close> obtain m a ks where md: "meta_div = Tag m a ks"
    by (cases meta_div) auto
  show ?thesis
  proof (cases "find_tag (\<lambda>k. is_named ''div'' k \<and> has_class ''list-subjects'' k) meta_div")
    case None
    with assms(2) Some qmm have "dd' = update_at qm (tag_append c) dd"
      by (simp add: splice_abstract_def)
    also have "\<dots> = update_at qm (tag_insert (length ks) c) dd"
      by (rule update_at_cong[OF n]) (simp add: md)
    finally show ?thesis using n md by blast
  next
    case (Some qss)
    obtain qs subjects_div where qss: "qss = (qs, subjects_div)" by (cases qss)
    from assms(2) \<open>find_tag (\<lambda>k. is_named ''div'' k \<and> has_class ''meta'' k) dd = Some qmm\<close>
      qmm Some qss obtain i where
      i: "index_of subjects_div (contents meta_div) = Inr i" and
      d: "dd' = update_at qm (tag_insert i c) dd"
      by (auto simp: splice_abstract_def split: sum.splits)
    from index_of_bound[OF i] have "i \<le> length ks" by (simp add: md)
    with n md d show ?thesis by blast
  qed
qed

lemma attr_update: "q \<noteq> [] \<Longrightarrow> attr (update_at q f x) key = attr x key"
  by (cases q; cases x) auto

lemma attr_insert: "attr (tag_insert i c x) key = attr x key"
  by (cases x) auto

lemma attr_grown: "attr (grown q i c r x) key = attr x key"
proof (induction q i c r x rule: grown.induct)
  case (1 q i c x)
  then show ?case by (cases q) (simp_all add: attr_insert attr_update)
qed simp_all

lemma href_of_grown: "href_of (grown q i c r x) = href_of x"
  by (simp add: href_of_def attr_grown)

lemma by_head_named: "by_head (is_named nm)"
  by (simp add: by_head_def)

lemma by_head_link: "by_head (\<lambda>k. is_named ''a'' k \<and> href_search pat k)"
  by (simp add: by_head_def href_search_def)

lemma by_head_class: "by_head (\<lambda>k. is_named nm k \<and> has_class cls k)"
  by (simp add: by_head_def has_class_def)

lemma new_abstract_div_no_dt:
  "\<not> is_named ''dt'' (new_abstract_div a)"
  "\<forall>x \<in> set (descendants (new_abstract_div a)). \<not> is_named ''dt'' (snd x)"
  by (simp_all add: new_abstract_div_def)

lemma new_abstract_div_no_dd: "\<not> is_named ''dd'' (new_abstract_div a)"
  by (simp add: new_abstract_div_def)

lemma new_abstract_div_no_link:
  "\<not> (is_named ''a'' (new_abstract_div a) \<and> href_search pat (new_abstract_div a))"
  "\<forall>x \<in> set (descendants (new_abstract_div a)). \<not> (is_named ''a'' (snd x) \<and> href_search pat (snd x))"
  by (simp_all add: new_abstract_div_def)

lemma new_abstract_div_no_title:
  "\<not> (is_named ''div'' (new_abstract_div a) \<and> has_class ''list-title'' (new_abstract_div a))"
  "\<forall>x \<in> set (descendants (new_abstract_div a)).
     \<not> (is_named ''div'' (snd x) \<and> has_class ''list-title'' (snd x))"
  by (simp_all add: new_abstract_div_def has_class_def split_ws_def isspace_def)

lemma find_tag_grown:
  assumes "by_head P" and "\<not> P c" and "\<forall>x \<in> set (descendants c). \<not> P (snd x)"
    and "node_at T p = Some x" and "node_at T q = Some (Tag m a ks)" and "i \<le> length ks"
  shows "rel_option (\<lambda>(r, y) (r1, y1). href_of y1 = href_of y)
           (find_tag P x) (find_tag P (grown q i c p x))"
proof -
  from grown_cases[OF assms(4,5), of i c] show ?thesis
  proof
    assume "grown q i c p x = x"
    then show ?thesis by (cases "find_tag P x") (auto simp: option.rel_map)
  next
    assume "\<exists>q'. node_at x q' = Some (Tag m a ks)
              \<and> grown q i c p x = update_at q' (tag_insert i c) x"
    then obtain q' where v: "node_at x q' = Some (Tag m a ks)"
      and g: "grown q i c p x = update_at q' (tag_insert i c) x" by blast
    have f: "find_all P (update_at q' (tag_insert i c) x) =
               map (\<lambda>(r, y). (shifted q' i r, grown q' i c r y)) (find_all P x)"
      using find_all_insert[OF assms(1,2,3) v assms(6)] .
    show ?thesis
      unfolding g find_tag_def f
      by (cases "find_all P x") (auto simp: href_of_grown)
  qed
qed

lemma has_descendant_node_at:
  "has_descendant P x \<longleftrightarrow> (\<exists>r y. r \<noteq> [] \<and> node_at x r = Some y \<and> P y)"
proof
  assume "has_descendant P x"
  then obtain z where z: "z \<in> set (descendants x)" "P (snd z)"
    unfolding has_descendant_def by blast
  obtain r y where zz: "z = (r, y)" by (cases z)
  have "r \<noteq> [] \<and> node_at x r = Some y"
    using z(1) descendants_node_at[of r y x] unfolding zz by blast
  with z(2) zz show "\<exists>r y. r \<noteq> [] \<and> node_at x r = Some y \<and> P y" by auto
next
  assume "\<exists>r y. r \<noteq> [] \<and> node_at x r = Some y \<and> P y"
  then obtain r y where r: "r \<noteq> []" "node_at x r = Some y" "P y" by blast
  then have "(r, y) \<in> set (descendants x)" using descendants_node_at[of r y x] by blast
  with r(3) show "has_descendant P x" unfolding has_descendant_def by force
qed

lemma has_descendant_grown:
  assumes "by_head P" and "has_descendant P x"
    and "node_at T p = Some x" and "node_at T q = Some (Tag m a ks)" and "i \<le> length ks"
  shows "has_descendant P (grown q i c p x)"
proof -
  from grown_cases[OF assms(3,4), of i c] show ?thesis
  proof
    assume "grown q i c p x = x"
    with assms(2) show ?thesis by simp
  next
    assume "\<exists>q'. node_at x q' = Some (Tag m a ks)
              \<and> grown q i c p x = update_at q' (tag_insert i c) x"
    then obtain q' where v: "node_at x q' = Some (Tag m a ks)"
      and g: "grown q i c p x = update_at q' (tag_insert i c) x" by blast
    from assms(2) obtain r y where r: "r \<noteq> []" "node_at x r = Some y" "P y"
      unfolding has_descendant_node_at by blast
    from node_at_insert[OF v assms(5) r(2), of c]
    have "node_at (update_at q' (tag_insert i c) x) (shifted q' i r) = Some (grown q' i c r y)" .
    moreover have "shifted q' i r \<noteq> []" using r(1) by (rule shifted_nonempty)
    moreover have "P (grown q' i c r y)" using by_head_grown[OF assms(1)] r(3) by simp
    ultimately show ?thesis unfolding g has_descendant_node_at by blast
  qed
qed

lemma enriched_iff:
  "enriched html \<longleftrightarrow> (\<forall>pd \<in> set (find_all (is_named ''dt'') html). detail_ready html pd)"
  by (simp add: enriched_def detail_ready_def)

lemma derive_dt_detail_path:
  "derive_dt T (p, dt) = Some (aid, t, hl, pdd, dd) \<Longrightarrow>
   find_next_sibling T p ''dd'' = Some (pdd, dd)"
  by (auto simp: derive_dt_def split: option.splits)

lemma derive_dt_insert:
  assumes v: "node_at T q = Some (Tag m a ks)" and i: "i \<le> length ks"
    and p: "node_at T p = Some dt"
    and d1: "derive_dt (update_at q (tag_insert i (new_abstract_div ab)) T)
               (shifted q i p, grown q i (new_abstract_div ab) p dt) =
             Some (aid1, t1, hl1, pdd1, dd1)"
  shows "\<exists>t hl pdd dd. derive_dt T (p, dt) = Some (aid1, t, hl, pdd, dd)
           \<and> pdd1 = shifted q i pdd \<and> dd1 = grown q i (new_abstract_div ab) pdd dd"
proof -
  let ?c = "new_abstract_div ab"
  let ?T1 = "update_at q (tag_insert i ?c) T"
  let ?A = "\<lambda>k. is_named ''a'' k \<and> href_search pat_abs k"
  let ?Tt = "\<lambda>k. is_named ''div'' k \<and> has_class ''list-title'' k"
  from d1 obtain q1 l1 r1 qt1 td1 where
    a1: "find_tag ?A (grown q i ?c p dt) = Some (q1, l1)" and
    s1: "re_search pat_id (href_of l1) = Some (aid1, r1)" and
    n1: "find_next_sibling ?T1 (shifted q i p) ''dd'' = Some (pdd1, dd1)" and
    t1: "find_tag ?Tt dd1 = Some (qt1, td1)"
    by (auto simp: derive_dt_def split: option.splits)
  have "rel_option (\<lambda>(r, y) (r1, y1). href_of y1 = href_of y)
          (find_tag ?A dt) (find_tag ?A (grown q i ?c p dt))"
    by (rule find_tag_grown[OF by_head_link new_abstract_div_no_link p v i])
  with a1 obtain q0 l0 where a0: "find_tag ?A dt = Some (q0, l0)" and h: "href_of l1 = href_of l0"
    by (cases "find_tag ?A dt") auto
  have "find_next_sibling ?T1 (shifted q i p) ''dd'' =
          map_option (\<lambda>(r, x). (shifted q i r, grown q i ?c r x)) (find_next_sibling T p ''dd'')"
    using find_next_sibling_insert[OF new_abstract_div_no_dd v i] p by simp
  with n1 obtain pdd dd where n0: "find_next_sibling T p ''dd'' = Some (pdd, dd)"
    and pd: "pdd1 = shifted q i pdd" and dd: "dd1 = grown q i ?c pdd dd"
    by (cases "find_next_sibling T p ''dd''") auto
  have vd: "node_at T pdd = Some dd" using n0 by (rule find_next_sibling_node_at)
  have "rel_option (\<lambda>(r, y) (r1, y1). href_of y1 = href_of y)
          (find_tag ?Tt dd) (find_tag ?Tt (grown q i ?c pdd dd))"
    by (rule find_tag_grown[OF by_head_class new_abstract_div_no_title vd v i])
  with t1 dd obtain qt td where t0: "find_tag ?Tt dd = Some (qt, td)"
    by (cases "find_tag ?Tt dd") auto
  have "derive_dt T (p, dt) =
          Some (aid1, clean_title (get_text td), html_link_of_dt dt, pdd, dd)"
    using a0 s1 h n0 t0 by (simp add: derive_dt_def)
  with pd dd show ?thesis by blast
qed

lemma detail_ready_insert:
  assumes v: "node_at T q = Some (Tag m a ks)" and i: "i \<le> length ks"
    and p: "node_at T p = Some dt"
    and r: "detail_ready T (p, dt)"
  shows "detail_ready (update_at q (tag_insert i (new_abstract_div ab)) T)
           (shifted q i p, grown q i (new_abstract_div ab) p dt)"
proof -
  let ?c = "new_abstract_div ab"
  let ?T1 = "update_at q (tag_insert i ?c) T"
  let ?C = "\<lambda>k. is_named ''div'' k \<and> has_class ''list-abstract'' k"
  show ?thesis
  proof (cases "derive_dt ?T1 (shifted q i p, grown q i ?c p dt)")
    case None
    then show ?thesis by (simp add: detail_ready_def)
  next
    case (Some res)
    obtain aid1 t1 hl1 pdd1 dd1 where res: "res = (aid1, t1, hl1, pdd1, dd1)"
      by (cases res) auto
    from derive_dt_insert[OF v i p Some[unfolded res]] obtain t hl pdd dd where
      d: "derive_dt T (p, dt) = Some (aid1, t, hl, pdd, dd)" and
      g: "dd1 = grown q i ?c pdd dd" by blast
    from r d have "find_tag ?C dd \<noteq> None" by (simp add: detail_ready_def)
    then have hd: "has_descendant ?C dd" by (simp only: find_tag_has_descendant)
    have vd: "node_at T pdd = Some dd"
      using derive_dt_detail_path[OF d] by (rule find_next_sibling_node_at)
    have "has_descendant ?C dd1"
      unfolding g by (rule has_descendant_grown[OF by_head_class hd vd v i])
    then have "find_tag ?C dd1 \<noteq> None" by (simp only: find_tag_has_descendant)
    then show ?thesis by (simp add: detail_ready_def Some res)
  qed
qed

lemma has_descendant_insert_at:
  assumes "node_at dd qm = Some (Tag m a ks)" and "P c"
  shows "has_descendant P (update_at qm (tag_insert i c) dd)"
proof (cases "qm = []")
  case True
  with assms(1) have dd: "dd = Tag m a ks" by simp
  obtain n' a' ks' where t: "tag_insert i c (Tag m a ks) = Tag n' a' ks'" and c: "c \<in> set ks'"
    using tag_insert_child[of "Tag m a ks" i c] by auto
  from c obtain l where l: "l < length ks'" "ks' ! l = c" by (auto simp: in_set_conv_nth)
  have "has_descendant P (Tag n' a' ks')"
    by (rule has_descendant_child[of l]) (simp_all add: l assms(2))
  then show ?thesis using True dd t by simp
next
  case False
  then have "(qm, Tag m a ks) \<in> set (descendants dd)"
    using assms(1) descendants_node_at[of qm "Tag m a ks" dd] by blast
  then show ?thesis
    by (rule has_descendant_update[where c = c]) (simp_all add: assms(2) tag_insert_child)
qed

lemma detail_ready_target:
  assumes v: "node_at T (pdd @ qm) = Some (Tag m a ks)" and i: "i \<le> length ks"
    and p: "node_at T p = Some dt"
    and n: "find_next_sibling T p ''dd'' = Some (pdd, dd)"
  shows "detail_ready (update_at (pdd @ qm) (tag_insert i (new_abstract_div ab)) T)
           (shifted (pdd @ qm) i p, grown (pdd @ qm) i (new_abstract_div ab) p dt)"
proof -
  let ?c = "new_abstract_div ab"
  let ?q = "pdd @ qm"
  let ?T1 = "update_at ?q (tag_insert i ?c) T"
  let ?C = "\<lambda>k. is_named ''div'' k \<and> has_class ''list-abstract'' k"
  show ?thesis
  proof (cases "derive_dt ?T1 (shifted ?q i p, grown ?q i ?c p dt)")
    case None
    then show ?thesis by (simp add: detail_ready_def)
  next
    case (Some res)
    obtain aid1 t1 hl1 pdd1 dd1 where res: "res = (aid1, t1, hl1, pdd1, dd1)"
      by (cases res) auto
    from derive_dt_insert[OF v i p Some[unfolded res]] obtain t hl pdd' dd' where
      d: "derive_dt T (p, dt) = Some (aid1, t, hl, pdd', dd')" and
      g: "dd1 = grown ?q i ?c pdd' dd'" by blast
    from derive_dt_detail_path[OF d] n have e: "pdd' = pdd" "dd' = dd" by simp_all
    have vd: "node_at T pdd = Some dd" using n by (rule find_next_sibling_node_at)
    with v have vm: "node_at dd qm = Some (Tag m a ks)" by (simp add: node_at_append)
    have "dd1 = update_at qm (tag_insert i ?c) dd"
      unfolding g e by (rule grown_prefix)
    moreover have "has_descendant ?C (update_at qm (tag_insert i ?c) dd)"
      using vm new_abstract_div_container by (rule has_descendant_insert_at)
    ultimately have "find_tag ?C dd1 \<noteq> None" by (simp only: find_tag_has_descendant)
    then show ?thesis by (simp add: detail_ready_def Some res)
  qed
qed

lemma enrich_dt_fetched:
  "enrich_dt session k st = Inr st' \<Longrightarrow>
   fetched st' = fetched st \<or> (\<exists>aid. fetched st' = fetched st @ [aid])"
  by (auto simp: enrich_dt_def Let_def split: list.splits option.splits sum.splits if_splits)

lemma enrich_loop_fetched:
  "enrich_loop session ks st = Inr st' \<Longrightarrow> \<exists>xs. fetched st' = fetched st @ xs"
proof (induction ks arbitrary: st)
  case Nil
  then show ?case by simp
next
  case (Cons k ks)
  from Cons.prems obtain st1 where
    s1: "enrich_dt session k st = Inr st1" and s2: "enrich_loop session ks st1 = Inr st'"
    by (auto split: sum.splits)
  from Cons.IH[OF s2] obtain xs where "fetched st' = fetched st1 @ xs" by blast
  with enrich_dt_fetched[OF s1] show ?case by auto
qed

lemma enrich_dt_ready:
  assumes s: "enrich_dt session k st = Inr st'"
    and k: "k < length (find_all (is_named ''dt'') (es_soup st))"
    and r: "\<forall>j<k. detail_ready (es_soup st) (find_all (is_named ''dt'') (es_soup st) ! j)"
    and tr: "\<forall>aid. fetched st' = fetched st @ [aid] \<longrightarrow> truthy (get_abstract session aid)"
  shows "length (find_all (is_named ''dt'') (es_soup st')) =
           length (find_all (is_named ''dt'') (es_soup st))
         \<and> (\<forall>j<Suc k. detail_ready (es_soup st')
                         (find_all (is_named ''dt'') (es_soup st') ! j))"
proof -
  let ?T = "es_soup st"
  let ?dts = "find_all (is_named ''dt'') ?T"
  let ?C = "\<lambda>k. is_named ''div'' k \<and> has_class ''list-abstract'' k"
  have d: "drop k ?dts = ?dts ! k # drop (Suc k) ?dts"
    using k by (simp add: Cons_nth_drop_Suc)
  obtain p dt where pd: "?dts ! k = (p, dt)" by (cases "?dts ! k")
  have same: "es_soup st' = ?T \<Longrightarrow> detail_ready ?T (p, dt) \<Longrightarrow> ?thesis"
  proof -
    assume e: "es_soup st' = ?T" and g: "detail_ready ?T (p, dt)"
    have "\<forall>j<Suc k. detail_ready ?T (?dts ! j)"
      using r g pd by (auto simp: less_Suc_eq)
    then show ?thesis by (simp add: e)
  qed
  show ?thesis
  proof (cases "derive_dt ?T (p, dt)")
    case None
    with s d pd have "st' = st" by (simp add: enrich_dt_def)
    moreover have "detail_ready ?T (p, dt)" using None by (simp add: detail_ready_def)
    ultimately show ?thesis using same by simp
  next
    case (Some res)
    obtain aid t hl pdd dd where res: "res = (aid, t, hl, pdd, dd)" by (cases res) auto
    note de = Some[unfolded res]
    show ?thesis
    proof (cases "find_tag ?C dd")
      case (Some qa)
      with s d pd de have "es_soup st' = ?T"
        by (auto simp: enrich_dt_def Let_def split: prod.splits)
      moreover have "detail_ready ?T (p, dt)" using de Some by (simp add: detail_ready_def)
      ultimately show ?thesis using same by simp
    next
      case None
      let ?ab = "get_abstract session aid"
      from s d pd de None obtain dd' where
        sp: "(if truthy ?ab
              then splice_abstract dd (new_abstract_div (case ?ab of Some x \<Rightarrow> x | None \<Rightarrow> []))
              else Inr dd) = Inr dd'" and
        so: "es_soup st' = update_at pdd (\<lambda>d. dd') ?T" and
        fe: "fetched st' = fetched st @ [aid]"
        by (auto simp: enrich_dt_def Let_def split: sum.splits)
      from tr fe have tru: "truthy ?ab" by blast
      let ?c = "new_abstract_div (case ?ab of Some x \<Rightarrow> x | None \<Rightarrow> [])"
      from sp tru have sp': "splice_abstract dd ?c = Inr dd'" by simp
      have tg: "is_tag dd" using de by (rule derive_dt_detail)
      from splice_as_insert[OF tg sp'] obtain qm i m a ks where
        vm: "node_at dd qm = Some (Tag m a ks)" and i: "i \<le> length ks" and
        dd': "dd' = update_at qm (tag_insert i ?c) dd" by blast
      have n: "find_next_sibling ?T p ''dd'' = Some (pdd, dd)"
        using de by (rule derive_dt_detail_path)
      have vd: "node_at ?T pdd = Some dd" using n by (rule find_next_sibling_node_at)
      have v: "node_at ?T (pdd @ qm) = Some (Tag m a ks)"
        using vd vm by (simp add: node_at_append)
      have T1: "es_soup st' = update_at (pdd @ qm) (tag_insert i ?c) ?T"
        unfolding so dd' using vd by (rule update_at_append)
      let ?phi = "\<lambda>(r, x). (shifted (pdd @ qm) i r, grown (pdd @ qm) i ?c r x)"
      have dts1: "find_all (is_named ''dt'') (es_soup st') = map ?phi ?dts"
        unfolding T1
        by (rule find_all_insert[OF by_head_named new_abstract_div_no_dt v i])
      have "detail_ready (es_soup st') (find_all (is_named ''dt'') (es_soup st') ! j)"
        if j: "j < Suc k" for j
      proof -
        have jl: "j < length ?dts" using j k by simp
        obtain pj dtj where pj: "?dts ! j = (pj, dtj)" by (cases "?dts ! j")
        have "(pj, dtj) \<in> set ?dts" using jl pj by (metis nth_mem)
        then have vj: "node_at ?T pj = Some dtj" by (auto dest: find_all_node_at)
        have e: "find_all (is_named ''dt'') (es_soup st') ! j =
                   (shifted (pdd @ qm) i pj, grown (pdd @ qm) i ?c pj dtj)"
          unfolding dts1 using jl pj by simp
        show ?thesis
        proof (cases "j = k")
          case True
          with pj pd have "pj = p" "dtj = dt" by simp_all
          with vj have vp: "node_at ?T p = Some dt" by simp
          have "detail_ready (update_at (pdd @ qm) (tag_insert i ?c) ?T)
                  (shifted (pdd @ qm) i p, grown (pdd @ qm) i ?c p dt)"
            by (rule detail_ready_target[OF v i vp n])
          then have "detail_ready (es_soup st')
                  (shifted (pdd @ qm) i pj, grown (pdd @ qm) i ?c pj dtj)"
            by (simp only: T1 \<open>pj = p\<close> \<open>dtj = dt\<close>)
          then show ?thesis by (simp only: e)
        next
          case False
          with j have "j < k" by simp
          with r pj have rj: "detail_ready ?T (pj, dtj)" by auto
          have "detail_ready (update_at (pdd @ qm) (tag_insert i ?c) ?T)
                  (shifted (pdd @ qm) i pj, grown (pdd @ qm) i ?c pj dtj)"
            by (rule detail_ready_insert[OF v i vj rj])
          then have "detail_ready (es_soup st')
                  (shifted (pdd @ qm) i pj, grown (pdd @ qm) i ?c pj dtj)"
            by (simp only: T1)
          then show ?thesis by (simp only: e)
        qed
      qed
      then show ?thesis by (simp add: dts1)
    qed
  qed
qed

lemma enrich_loop_ready:
  assumes "enrich_loop session [k ..< n] st = Inr st'"
    and "k \<le> n"
    and "length (find_all (is_named ''dt'') (es_soup st)) = n"
    and "\<forall>j<k. detail_ready (es_soup st) (find_all (is_named ''dt'') (es_soup st) ! j)"
    and "\<forall>aid \<in> set (fetched st'). truthy (get_abstract session aid)"
  shows "length (find_all (is_named ''dt'') (es_soup st')) = n
         \<and> (\<forall>j<n. detail_ready (es_soup st') (find_all (is_named ''dt'') (es_soup st') ! j))"
  using assms
proof (induction "n - k" arbitrary: k st)
  case 0
  then have "k = n" by simp
  with 0 show ?case by simp
next
  case (Suc d)
  then have kn: "k < n" by simp
  then have u: "[k ..< n] = k # [Suc k ..< n]" by (rule upt_conv_Cons)
  from Suc.prems(1) obtain st1 where
    s1: "enrich_dt session k st = Inr st1" and
    s2: "enrich_loop session [Suc k ..< n] st1 = Inr st'"
    unfolding u by (auto split: sum.splits)
  from enrich_loop_fetched[OF s2] obtain xs where xs: "fetched st' = fetched st1 @ xs" by blast
  have tr: "\<forall>aid. fetched st1 = fetched st @ [aid] \<longrightarrow> truthy (get_abstract session aid)"
  proof (intro allI impI)
    fix aid assume "fetched st1 = fetched st @ [aid]"
    then have "aid \<in> set (fetched st')" by (simp add: xs)
    with Suc.prems(5) show "truthy (get_abstract session aid)" by blast
  qed
  have k': "k < length (find_all (is_named ''dt'') (es_soup st))"
    using kn Suc.prems(3) by simp
  from enrich_dt_ready[OF s1 k' Suc.prems(4) tr]
  have l1: "length (find_all (is_named ''dt'') (es_soup st1)) = n"
    and r1: "\<forall>j<Suc k. detail_ready (es_soup st1) (find_all (is_named ''dt'') (es_soup st1) ! j)"
    using Suc.prems(3) by simp_all
  have dk: "d = n - Suc k" using Suc.hyps(2) by simp
  have sk: "Suc k \<le> n" using kn by simp
  from Suc.hyps(1)[OF dk s2 sk l1 r1 Suc.prems(5)] show ?case .
qed

lemma first_run_leaves_enriched:
  assumes "add_abstracts_to_html session html = Inr st"
    and "\<forall>aid \<in> set (fetched st). truthy (get_abstract session aid)"
  shows "enriched (es_soup st)"
proof -
  let ?n = "length (find_all (is_named ''dt'') html)"
  let ?init = "\<lparr>es_soup = html, papers_data = [], processed_count = 0, fetched = [], sleeps = 0\<rparr>"
  have l: "enrich_loop session [0 ..< ?n] ?init = Inr st"
    using assms(1) by (simp add: add_abstracts_to_html_def)
  have n: "length (find_all (is_named ''dt'') (es_soup ?init)) = ?n" by simp
  have z: "\<forall>j<0. detail_ready (es_soup ?init) (find_all (is_named ''dt'') (es_soup ?init) ! j)"
    by simp
  from enrich_loop_ready[OF l _ n z assms(2)]
  have len: "length (find_all (is_named ''dt'') (es_soup st)) = ?n"
    and all: "\<forall>j<?n. detail_ready (es_soup st) (find_all (is_named ''dt'') (es_soup st) ! j)"
    by simp_all
  show ?thesis
    unfolding enriched_iff
  proof
    fix pd assume "pd \<in> set (find_all (is_named ''dt'') (es_soup st))"
    then obtain j where "j < length (find_all (is_named ''dt'') (es_soup st))"
      and "find_all (is_named ''dt'') (es_soup st) ! j = pd"
      by (auto simp: in_set_conv_nth)
    with len all show "detail_ready (es_soup st) pd" by auto
  qed
qed

section \<open>Facts about a second run\<close>

lemma universal_newlines_id: "CHR 0x0D \<notin> set s \<Longrightarrow> universal_newlines s = s"
  by (induction s rule: universal_newlines.induct) auto

lemma read_back_id: "no_cr x \<Longrightarrow> read_back x = x"
proof (induction x)
  case (Tag n a ks)
  have "map (\<lambda>(key, v). (key, universal_newlines v)) a = a"
    using Tag.prems by (intro map_idI) (auto simp: universal_newlines_id)
  moreover have "map read_back ks = ks"
    using Tag by (intro map_idI) auto
  ultimately show ?case by simp
qed (simp_all add: universal_newlines_id)

lemma no_cr_update_at:
  "no_cr x \<Longrightarrow> (\<And>y. no_cr y \<Longrightarrow> no_cr (f y)) \<Longrightarrow> no_cr (update_at q f x)"
proof (induction q arbitrary: x)
  case Nil
  then show ?case by simp
next
  case (Cons j q)
  show ?case
  proof (cases x)
    case (Tag n a ks)
    show ?thesis
    proof (cases "j < length ks")
      case True
      have "no_cr (ks ! j)" using Cons.prems(1) True by (simp add: Tag)
      then have "no_cr (update_at q f (ks ! j))" using Cons.prems(2) by (rule Cons.IH)
      moreover have "set (ks[j := update_at q f (ks ! j)]) \<subseteq> insert (update_at q f (ks ! j)) (set ks)"
        by (rule set_update_subset_insert)
      ultimately show ?thesis using Cons.prems(1) True by (auto simp: Tag)
    next
      case False
      then show ?thesis using Cons.prems(1) by (simp add: Tag)
    qed
  qed (use Cons.prems in simp_all)
qed

lemma no_cr_tag_insert: "no_cr c \<Longrightarrow> no_cr x \<Longrightarrow> no_cr (tag_insert i c x)"
  by (cases x) (auto dest: in_set_takeD in_set_dropD)

lemma no_cr_new_abstract_div: "CHR 0x0D \<notin> set ab \<Longrightarrow> no_cr (new_abstract_div ab)"
  by (simp add: new_abstract_div_def)

lemma re_sub_no_match: "re_search pat s = None \<Longrightarrow> re_sub pat s = s"
  by (induction s) (auto split: option.splits)

lemma strip_Nil: "strip [] = []"
  by (simp add: strip_def)

lemma stripped_hd: "strip s = s \<Longrightarrow> s \<noteq> [] \<Longrightarrow> \<not> isspace (hd s)"
  using strip_ends[of s] by simp

lemma reread_new_container:
  assumes "ab \<noteq> []" and "strip ab = ab" and "re_search pat_abstract ab = None"
  shows "strip (re_sub pat_abstract (get_text (new_abstract_div ab))) = ab"
proof -
  have h: "\<not> isspace (hd ab)" using assms(2,1) by (rule stripped_hd)
  obtain c cs where ab: "ab = c # cs" using assms(1) by (cases ab) auto
  have d: "dropWhile isspace ab = ab" using h by (simp add: ab)
  have g: "get_text (new_abstract_div ab) = CHR ''A'' # ''bstract: '' @ ab"
    by (simp add: new_abstract_div_def)
  have m: "pat_abstract (CHR ''A'' # ''bstract: '' @ ab) = Some ([], ab)"
  proof -
    have "lit_ci ''abstract:'' (CHR ''A'' # ''bstract: '' @ ab) = Some (CHR '' '' # ab)"
      by (simp add: lower_def)
    moreover have "dropWhile isspace (CHR '' '' # ab) = dropWhile isspace ab"
      by (simp add: isspace_def)
    ultimately show ?thesis by (simp only: pat_abstract_def option.case d)
  qed
  have "re_sub pat_abstract (CHR ''A'' # ''bstract: '' @ ab) = re_sub pat_abstract ab"
    by (simp only: re_sub.simps m) simp
  also have "\<dots> = ab" using assms(3) by (rule re_sub_no_match)
  finally show ?thesis unfolding g using assms(2) by simp
qed

lemma get_abstract_stripped: "get_abstract session aid = Some ab \<Longrightarrow> strip ab = ab"
  by (auto simp: get_abstract_def abstract_of_page_def strip_idem split: option.splits)

lemma grown_eq:
  "grown q i c p x =
     (if take (length p) q = p then update_at (drop (length p) q) (tag_insert i c) x else x)"
  by (induction q i c p x rule: grown.induct) auto

lemma find_all_grown_empty:
  assumes "by_head P" and "\<not> P c" and "\<forall>x \<in> set (descendants c). \<not> P (snd x)"
    and "node_at T p = Some x" and "node_at T q = Some (Tag m a ks)" and "i \<le> length ks"
    and "find_all P x = []"
  shows "find_all P (grown q i c p x) = []"
proof -
  from grown_cases[OF assms(4,5), of i c] show ?thesis
  proof
    assume "grown q i c p x = x"
    with assms(7) show ?thesis by simp
  next
    assume "\<exists>q'. node_at x q' = Some (Tag m a ks)
              \<and> grown q i c p x = update_at q' (tag_insert i c) x"
    then obtain q' where v: "node_at x q' = Some (Tag m a ks)"
      and g: "grown q i c p x = update_at q' (tag_insert i c) x" by blast
    show ?thesis
      unfolding g find_all_insert[OF assms(1,2,3) v assms(6)] assms(7) by simp
  qed
qed

lemma splice_target:
  assumes "is_tag dd" and "splice_abstract dd c = Inr dd'"
  shows "\<exists>qm i m a ks. node_at dd qm = Some (Tag m a ks) \<and> i \<le> length ks
           \<and> dd' = update_at qm (tag_insert i c) dd
           \<and> (qm = [] \<or> is_named ''div'' (Tag m a ks) \<and> has_class ''meta'' (Tag m a ks))"
proof (cases "find_tag (\<lambda>k. is_named ''div'' k \<and> has_class ''meta'' k) dd")
  case None
  from assms(1) obtain m a ks where dd: "dd = Tag m a ks" by (cases dd) auto
  from None assms(2) have "dd' = tag_append c dd" by (simp add: splice_abstract_def)
  then have "node_at dd [] = Some (Tag m a ks) \<and> length ks \<le> length ks
           \<and> dd' = update_at [] (tag_insert (length ks) c) dd"
    by (simp add: dd)
  then show ?thesis by blast
next
  case (Some qmm)
  obtain qm meta_div where qmm: "qmm = (qm, meta_div)" by (cases qmm)
  from find_tag_SomeD[OF Some[unfolded qmm]]
  have "(qm, meta_div) \<in> set (descendants dd)"
    and mt: "is_named ''div'' meta_div \<and> has_class ''meta'' meta_div"
    by auto
  then have n: "node_at dd qm = Some meta_div" by (simp add: descendants_node_at)
  from mt have "is_tag meta_div" by (auto dest: is_named_is_tag)
  then obtain m a ks where md: "meta_div = Tag m a ks"
    by (cases meta_div) auto
  show ?thesis
  proof (cases "find_tag (\<lambda>k. is_named ''div'' k \<and> has_class ''list-subjects'' k) meta_div")
    case None
    with assms(2) Some qmm have "dd' = update_at qm (tag_append c) dd"
      by (simp add: splice_abstract_def)
    also have "\<dots> = update_at qm (tag_insert (length ks) c) dd"
      by (rule update_at_cong[OF n]) (simp add: md)
    finally show ?thesis using n md mt by blast
  next
    case (Some qss)
    obtain qs subjects_div where qss: "qss = (qs, subjects_div)" by (cases qss)
    from assms(2) \<open>find_tag (\<lambda>k. is_named ''div'' k \<and> has_class ''meta'' k) dd = Some qmm\<close>
      qmm Some qss obtain i where
      i: "index_of subjects_div (contents meta_div) = Inr i" and
      d: "dd' = update_at qm (tag_insert i c) dd"
      by (auto simp: splice_abstract_def split: sum.splits)
    from index_of_bound[OF i] have "i \<le> length ks" by (simp add: md)
    with n md d mt show ?thesis by blast
  qed
qed

lemma update_at_same: "node_at T p = Some d \<Longrightarrow> update_at p (\<lambda>x. d) T = T"
proof (induction p arbitrary: T)
  case Nil
  then show ?case by simp
next
  case (Cons j p)
  then show ?case by (cases T) (auto split: if_splits)
qed

text \<open>The ways an iteration of the driver can go.\<close>

lemma enrich_dt_cases:
  assumes s: "enrich_dt session k st = Inr st'"
    and k: "k < length (find_all (is_named ''dt'') (es_soup st))"
  obtains
    (skip) "derive_dt (es_soup st) (find_all (is_named ''dt'') (es_soup st) ! k) = None"
      and "st' = st"
  | (again) aid t hl pdd dd qa ea where
      "derive_dt (es_soup st) (find_all (is_named ''dt'') (es_soup st) ! k)
         = Some (aid, t, hl, pdd, dd)"
      and "find_tag (\<lambda>k. is_named ''div'' k \<and> has_class ''list-abstract'' k) dd = Some (qa, ea)"
      and "st' = st\<lparr>papers_data := papers_data st @
                       [make_paper_data t hl aid
                          (Some (strip (re_sub pat_abstract (get_text ea))))],
                     processed_count := processed_count st + 1\<rparr>"
  | (absent) aid t hl pdd dd where
      "derive_dt (es_soup st) (find_all (is_named ''dt'') (es_soup st) ! k)
         = Some (aid, t, hl, pdd, dd)"
      and "find_tag (\<lambda>k. is_named ''div'' k \<and> has_class ''list-abstract'' k) dd = None"
      and "\<not> truthy (get_abstract session aid)"
      and "fetched st' = fetched st @ [aid]"
      and "es_soup st' = es_soup st"
  | (fetch) aid t hl pdd dd ab qm i m a ks where
      "derive_dt (es_soup st) (find_all (is_named ''dt'') (es_soup st) ! k)
         = Some (aid, t, hl, pdd, dd)"
      and "find_tag (\<lambda>k. is_named ''div'' k \<and> has_class ''list-abstract'' k) dd = None"
      and "get_abstract session aid = Some ab" and "ab \<noteq> []"
      and "node_at dd qm = Some (Tag m a ks)" and "i \<le> length ks"
      and "qm = [] \<or> is_named ''div'' (Tag m a ks) \<and> has_class ''meta'' (Tag m a ks)"
      and "st' = st\<lparr>es_soup := update_at (pdd @ qm) (tag_insert i (new_abstract_div ab)) (es_soup st),
                     papers_data := papers_data st @ [make_paper_data t hl aid (Some ab)],
                     processed_count := processed_count st + 1,
                     fetched := fetched st @ [aid],
                     sleeps := sleeps st + 1\<rparr>"
proof -
  let ?T = "es_soup st"
  let ?dts = "find_all (is_named ''dt'') ?T"
  let ?C = "\<lambda>k. is_named ''div'' k \<and> has_class ''list-abstract'' k"
  have d: "drop k ?dts = ?dts ! k # drop (Suc k) ?dts"
    using k by (simp add: Cons_nth_drop_Suc)
  show thesis
  proof (cases "derive_dt ?T (?dts ! k)")
    case None
    with s d have "st' = st" by (simp add: enrich_dt_def)
    with None show thesis by (rule skip)
  next
    case (Some res)
    obtain aid t hl pdd dd where res: "res = (aid, t, hl, pdd, dd)" by (cases res) auto
    note de = Some[unfolded res]
    show thesis
    proof (cases "find_tag ?C dd")
      case (Some qe)
      obtain qa ea where qe: "qe = (qa, ea)" by (cases qe)
      from s d de Some qe have
        "st' = st\<lparr>papers_data := papers_data st @
                       [make_paper_data t hl aid
                          (Some (strip (re_sub pat_abstract (get_text ea))))],
                     processed_count := processed_count st + 1\<rparr>"
        by (simp add: enrich_dt_def Let_def)
      with de Some[unfolded qe] show thesis by (rule again)
    next
      case None
      let ?ab = "get_abstract session aid"
      show thesis
      proof (cases "truthy ?ab")
        case False
        obtain p dt where pd: "?dts ! k = (p, dt)" by (cases "?dts ! k")
        have "find_next_sibling ?T p ''dd'' = Some (pdd, dd)"
          using de unfolding pd by (rule derive_dt_detail_path)
        then have "node_at ?T pdd = Some dd" by (rule find_next_sibling_node_at)
        then have "update_at pdd (\<lambda>d. dd) ?T = ?T" by (rule update_at_same)
        with s d de None False have "fetched st' = fetched st @ [aid]" "es_soup st' = ?T"
          by (auto simp: enrich_dt_def Let_def)
        with de None False show thesis by (rule absent)
      next
        case True
        then obtain ab where ab: "?ab = Some ab" "ab \<noteq> []" by (cases ?ab) auto
        from s d de None ab obtain dd' where
          sp: "splice_abstract dd (new_abstract_div ab) = Inr dd'" and
          st': "st' = st\<lparr>es_soup := update_at pdd (\<lambda>d. dd') ?T,
                     papers_data := papers_data st @ [make_paper_data t hl aid (Some ab)],
                     processed_count := processed_count st + 1,
                     fetched := fetched st @ [aid],
                     sleeps := sleeps st + 1\<rparr>"
          by (auto simp: enrich_dt_def Let_def split: sum.splits)
        have tg: "is_tag dd" using de by (rule derive_dt_detail)
        from splice_target[OF tg sp] obtain qm i m a ks where
          vm: "node_at dd qm = Some (Tag m a ks)" and i: "i \<le> length ks" and
          dd': "dd' = update_at qm (tag_insert i (new_abstract_div ab)) dd" and
          mt: "qm = [] \<or> is_named ''div'' (Tag m a ks) \<and> has_class ''meta'' (Tag m a ks)"
          by blast
        obtain p dt where pd: "?dts ! k = (p, dt)" by (cases "?dts ! k")
        have n: "find_next_sibling ?T p ''dd'' = Some (pdd, dd)"
          using de unfolding pd by (rule derive_dt_detail_path)
        have vd: "node_at ?T pdd = Some dd" using n by (rule find_next_sibling_node_at)
        have T1: "update_at pdd (\<lambda>d. dd') ?T =
                    update_at (pdd @ qm) (tag_insert i (new_abstract_div ab)) ?T"
          unfolding dd' using vd by (rule update_at_append)
        show thesis
          by (rule fetch[OF de None ab vm i mt]) (simp only: st' T1)
      qed
    qed
  qed
qed

lemma details_flat_insert:
  assumes "details_flat T" and "node_at T q = Some (Tag m a ks)" and "i \<le> length ks"
  shows "details_flat (update_at q (tag_insert i (new_abstract_div ab)) T)"
proof -
  let ?c = "new_abstract_div ab"
  let ?D = "is_named ''dd''"
  have nd: "\<not> ?D ?c" "\<forall>x \<in> set (descendants ?c). \<not> ?D (snd x)"
    by (simp_all add: new_abstract_div_def)
  have f: "find_all ?D (update_at q (tag_insert i ?c) T) =
             map (\<lambda>(r, x). (shifted q i r, grown q i ?c r x)) (find_all ?D T)"
    by (rule find_all_insert[OF by_head_named nd assms(2,3)])
  show ?thesis
    unfolding details_flat_def f
  proof
    fix y assume "y \<in> set (map (\<lambda>(r, x). (shifted q i r, grown q i ?c r x)) (find_all ?D T))"
    then obtain r x where rx: "(r, x) \<in> set (find_all ?D T)"
      and y: "y = (shifted q i r, grown q i ?c r x)" by auto
    from rx have v: "node_at T r = Some x" by (auto dest: find_all_node_at)
    from assms(1) rx have e: "find_all ?D x = []" by (auto simp: details_flat_def)
    have "find_all ?D (grown q i ?c r x) = []"
      by (rule find_all_grown_empty[OF by_head_named nd v assms(2,3) e])
    then show "find_all ?D (snd y) = []" by (simp add: y)
  qed
qed

lemma new_abstract_div_no_meta:
  "\<not> (is_named ''div'' (new_abstract_div a) \<and> has_class ''meta'' (new_abstract_div a))"
  "\<forall>x \<in> set (descendants (new_abstract_div a)).
     \<not> (is_named ''div'' (snd x) \<and> has_class ''meta'' (snd x))"
  by (simp_all add: new_abstract_div_def has_class_def split_ws_def isspace_def)

lemma has_class_grown: "has_class cls (grown q i c r x) = has_class cls x"
  by (simp add: has_class_def attr_grown)

lemma titles_clear_insert:
  assumes "titles_clear T" and "node_at T q = Some (Tag m a ks)" and "i \<le> length ks"
  shows "titles_clear (update_at q (tag_insert i (new_abstract_div ab)) T)"
proof -
  let ?c = "new_abstract_div ab"
  let ?Tt = "\<lambda>k. is_named ''div'' k \<and> has_class ''list-title'' k"
  let ?M = "\<lambda>k. is_named ''div'' k \<and> has_class ''meta'' k"
  have f: "find_all ?Tt (update_at q (tag_insert i ?c) T) =
             map (\<lambda>(r, x). (shifted q i r, grown q i ?c r x)) (find_all ?Tt T)"
    by (rule find_all_insert[OF by_head_class new_abstract_div_no_title assms(2,3)])
  show ?thesis
    unfolding titles_clear_def f
  proof
    fix y assume "y \<in> set (map (\<lambda>(r, x). (shifted q i r, grown q i ?c r x)) (find_all ?Tt T))"
    then obtain r x where rx: "(r, x) \<in> set (find_all ?Tt T)"
      and y: "y = (shifted q i r, grown q i ?c r x)" by auto
    from rx have v: "node_at T r = Some x" by (auto dest: find_all_node_at)
    from assms(1) rx have e: "\<not> has_class ''meta'' x" "find_all ?M x = []"
      by (auto simp: titles_clear_def)
    have "find_all ?M (grown q i ?c r x) = []"
      by (rule find_all_grown_empty[OF by_head_class new_abstract_div_no_meta v assms(2,3) e(2)])
    with e(1) show "\<not> has_class ''meta'' (snd y) \<and> find_all ?M (snd y) = []"
      by (simp add: y has_class_grown)
  qed
qed

lemma find_all_insert_fresh_here:
  assumes "P c" and "\<forall>x \<in> set (descendants c). \<not> P (snd x)" and "i \<le> length ks"
    and "find_all P (Tag m a ks) = []"
  shows "find_all P (Tag m a (take i ks @ [c] @ drop i ks)) = [([i], c)]"
proof -
  let ?F = "filter (\<lambda>(p, d). P d)"
  let ?bump = "\<lambda>(r, x). (case r of [] \<Rightarrow> [] | y # r' \<Rightarrow> Suc y # r', x)"
  let ?A = "kids_descendants 0 (take i ks)"
  let ?B = "kids_descendants i (drop i ks)"
  have mn: "min (length ks) i = i" using assms(3) by simp
  have new: "kids_descendants 0 (take i ks @ [c] @ drop i ks) =
               ?A @ ([i], c) # map (\<lambda>(p, d). (i # p, d)) (descendants c)
               @ kids_descendants (Suc i) (drop i ks)"
    by (simp add: kids_descendants_append mn)
  have old: "kids_descendants 0 ks = ?A @ ?B"
    using kids_descendants_append[of 0 "take i ks" "drop i ks"] by (simp add: mn)
  from assms(4) have e: "?F ?A = []" "?F ?B = []"
    unfolding find_all_def descendants.simps old by simp_all
  have c0: "?F (map (\<lambda>(p, d). (i # p, d)) (descendants c)) = []"
    using assms(2) by (auto simp: filter_empty_conv)
  have fB: "?F (kids_descendants (Suc i) (drop i ks)) = map ?bump (?F ?B)"
    unfolding kids_descendants_Suc by (rule filter_snd_map) (simp add: case_prod_beta)
  show ?thesis
    unfolding find_all_def descendants.simps new
    using assms(1) by (simp add: c0 fB e)
qed

lemma find_all_insert_fresh:
  assumes "by_head P" and "P c" and "\<forall>x \<in> set (descendants c). \<not> P (snd x)"
  shows "node_at T q = Some (Tag m a ks) \<Longrightarrow> i \<le> length ks \<Longrightarrow> find_all P T = [] \<Longrightarrow>
         find_all P (update_at q (tag_insert i c) T) = [(q @ [i], c)]"
proof (induction q arbitrary: T)
  case Nil
  then have T: "T = Tag m a ks" by simp
  show ?case
    using find_all_insert_fresh_here[OF assms(2,3) Nil.prems(2), of m a] Nil.prems(3)
    unfolding T by simp
next
  case (Cons j q)
  let ?F = "filter (\<lambda>(p, d). P d)"
  let ?pre = "\<lambda>(p, d). (j # p, d)"
  from Cons.prems(1) obtain n' a' ks' where T: "T = Tag n' a' ks'"
    by (cases T) auto
  from Cons.prems(1) have j: "j < length ks'" and K: "node_at (ks' ! j) q = Some (Tag m a ks)"
    unfolding T by (auto split: if_splits)
  let ?K = "ks' ! j"
  let ?K1 = "update_at q (tag_insert i c) ?K"
  let ?A = "kids_descendants 0 (take j ks')"
  let ?B = "kids_descendants (Suc j) (drop (Suc j) ks')"
  have T1: "update_at (j # q) (tag_insert i c) T = Tag n' a' (ks'[j := ?K1])"
    using j by (simp add: T)
  have j1: "j < length (ks'[j := ?K1])" using j by simp
  have d1: "descendants (Tag n' a' (ks'[j := ?K1])) =
              ?A @ ([j], ?K1) # map ?pre (descendants ?K1) @ ?B"
    using descendants_split[OF j1, of n' a'] j by simp
  have d0: "descendants (Tag n' a' ks') =
              ?A @ ([j], ?K) # map ?pre (descendants ?K) @ ?B"
    using descendants_split[OF j, of n' a'] .
  have fm: "\<And>xs. ?F (map ?pre xs) = map ?pre (?F xs)"
    by (rule filter_snd_map) (simp add: case_prod_beta)
  from Cons.prems(3) have e: "?F ?A = []" "\<not> P ?K" "?F (descendants ?K) = []" "?F ?B = []"
    unfolding T find_all_def d0 by (auto simp: fm split: if_splits)
  have pK: "P ?K1 = P ?K"
    using by_head_grown[OF assms(1), of q i c "[]" ?K] by simp
  have IH: "find_all P ?K1 = [(q @ [i], c)]"
    using Cons.IH[OF K Cons.prems(2)] e(3) by (simp add: find_all_def)
  show ?case
    unfolding T1 find_all_def d1
    using e pK IH by (simp add: fm find_all_def)
qed

lemma html_link_of_dt_grown:
  assumes "node_at T p = Some dt" and "node_at T q = Some (Tag m a ks)" and "i \<le> length ks"
  shows "html_link_of_dt (grown q i (new_abstract_div ab) p dt) = html_link_of_dt dt"
proof -
  let ?c = "new_abstract_div ab"
  let ?g = "grown q i ?c p dt"
  let ?P1 = "\<lambda>k. is_named ''a'' k \<and> href_search pat_html_abs k"
  let ?P2 = "\<lambda>k. is_named ''a'' k \<and> href_search pat_html k"
  have r1: "rel_option (\<lambda>(r, y) (r1, y1). href_of y1 = href_of y) (find_tag ?P1 dt) (find_tag ?P1 ?g)"
    by (rule find_tag_grown[OF by_head_link new_abstract_div_no_link assms])
  have r2: "rel_option (\<lambda>(r, y) (r1, y1). href_of y1 = href_of y) (find_tag ?P2 dt) (find_tag ?P2 ?g)"
    by (rule find_tag_grown[OF by_head_link new_abstract_div_no_link assms])
  show ?thesis
  proof (cases "find_tag ?P1 dt")
    case (Some x)
    with r1 obtain y where y: "find_tag ?P1 ?g = Some y" and "href_of (snd y) = href_of (snd x)"
      by (cases "find_tag ?P1 ?g") (auto simp: case_prod_beta)
    with Some show ?thesis by (simp add: html_link_of_dt_def case_prod_beta)
  next
    case None
    with r1 have n1: "find_tag ?P1 ?g = None" by (cases "find_tag ?P1 ?g") auto
    show ?thesis
    proof (cases "find_tag ?P2 dt")
      case (Some x)
      with r2 obtain y where y: "find_tag ?P2 ?g = Some y" and "href_of (snd y) = href_of (snd x)"
        by (cases "find_tag ?P2 ?g") (auto simp: case_prod_beta)
      with Some None n1 show ?thesis by (simp add: html_link_of_dt_def case_prod_beta)
    next
      case n2: None
      with r2 have "find_tag ?P2 ?g = None" by (cases "find_tag ?P2 ?g") auto
      with n2 None n1 show ?thesis by (simp add: html_link_of_dt_def)
    qed
  qed
qed

lemma derive_dt_parts:
  "derive_dt T (p, dt) = Some (aid, t, hl, pdd, dd) \<longleftrightarrow>
     (\<exists>q0 l0 r0 qt td.
        find_tag (\<lambda>k. is_named ''a'' k \<and> href_search pat_abs k) dt = Some (q0, l0)
        \<and> re_search pat_id (href_of l0) = Some (aid, r0)
        \<and> find_next_sibling T p ''dd'' = Some (pdd, dd)
        \<and> find_tag (\<lambda>k. is_named ''div'' k \<and> has_class ''list-title'' k) dd = Some (qt, td)
        \<and> t = clean_title (get_text td) \<and> hl = html_link_of_dt dt)"
  by (auto simp: derive_dt_def split: option.splits)

lemma derive_dt_insert_fwd:
  assumes v: "node_at T q = Some (Tag m a ks)" and i: "i \<le> length ks"
    and p: "node_at T p = Some dt"
    and d0: "derive_dt T (p, dt) = Some (aid, t, hl, pdd, dd)"
  shows "\<exists>qt td. find_tag (\<lambda>k. is_named ''div'' k \<and> has_class ''list-title'' k)
                    (grown q i (new_abstract_div ab) pdd dd) = Some (qt, td)
           \<and> derive_dt (update_at q (tag_insert i (new_abstract_div ab)) T)
               (shifted q i p, grown q i (new_abstract_div ab) p dt) =
             Some (aid, clean_title (get_text td), hl, shifted q i pdd,
                   grown q i (new_abstract_div ab) pdd dd)"
proof -
  let ?c = "new_abstract_div ab"
  let ?T1 = "update_at q (tag_insert i ?c) T"
  let ?A = "\<lambda>k. is_named ''a'' k \<and> href_search pat_abs k"
  let ?Tt = "\<lambda>k. is_named ''div'' k \<and> has_class ''list-title'' k"
  from d0[unfolded derive_dt_parts] obtain q0 l0 r0 qt0 td0 where
    a0: "find_tag ?A dt = Some (q0, l0)" and
    s0: "re_search pat_id (href_of l0) = Some (aid, r0)" and
    n0: "find_next_sibling T p ''dd'' = Some (pdd, dd)" and
    t0: "find_tag ?Tt dd = Some (qt0, td0)" and
    hl: "hl = html_link_of_dt dt" by blast
  have "rel_option (\<lambda>(r, y) (r1, y1). href_of y1 = href_of y)
          (find_tag ?A dt) (find_tag ?A (grown q i ?c p dt))"
    by (rule find_tag_grown[OF by_head_link new_abstract_div_no_link p v i])
  with a0 obtain q1 l1 where a1: "find_tag ?A (grown q i ?c p dt) = Some (q1, l1)"
    and h: "href_of l1 = href_of l0"
    by (cases "find_tag ?A (grown q i ?c p dt)") auto
  have n1: "find_next_sibling ?T1 (shifted q i p) ''dd'' =
              Some (shifted q i pdd, grown q i ?c pdd dd)"
    using find_next_sibling_insert[OF new_abstract_div_no_dd v i, of p ab] p n0 by simp
  have vd: "node_at T pdd = Some dd" using n0 by (rule find_next_sibling_node_at)
  have "rel_option (\<lambda>(r, y) (r1, y1). href_of y1 = href_of y)
          (find_tag ?Tt dd) (find_tag ?Tt (grown q i ?c pdd dd))"
    by (rule find_tag_grown[OF by_head_class new_abstract_div_no_title vd v i])
  with t0 obtain qt td where t1: "find_tag ?Tt (grown q i ?c pdd dd) = Some (qt, td)"
    by (cases "find_tag ?Tt (grown q i ?c pdd dd)") auto
  have h1: "html_link_of_dt (grown q i ?c p dt) = hl"
    unfolding hl by (rule html_link_of_dt_grown[OF p v i])
  have "derive_dt ?T1 (shifted q i p, grown q i ?c p dt) =
          Some (aid, clean_title (get_text td), hl, shifted q i pdd, grown q i ?c pdd dd)"
    unfolding derive_dt_parts using a1 s0 h n1 t1 h1 by simp
  with t1 show ?thesis by blast
qed

lemma derive_dt_insert_None:
  assumes "node_at T q = Some (Tag m a ks)" and "i \<le> length ks"
    and "node_at T p = Some dt" and "derive_dt T (p, dt) = None"
  shows "derive_dt (update_at q (tag_insert i (new_abstract_div ab)) T)
           (shifted q i p, grown q i (new_abstract_div ab) p dt) = None"
proof (cases "derive_dt (update_at q (tag_insert i (new_abstract_div ab)) T)
           (shifted q i p, grown q i (new_abstract_div ab) p dt)")
  case None
  then show ?thesis .
next
  case (Some res)
  obtain aid1 t1 hl1 pdd1 dd1 where res: "res = (aid1, t1, hl1, pdd1, dd1)"
    by (cases res) auto
  from derive_dt_insert[OF assms(1,2,3) Some[unfolded res]] assms(4) show ?thesis by auto
qed

lemma in_find_all: "node_at T r = Some x \<Longrightarrow> r \<noteq> [] \<Longrightarrow> P x \<Longrightarrow> (r, x) \<in> set (find_all P T)"
  by (simp add: find_all_def descendants_node_at)

lemma details_apart:
  assumes f: "details_flat T"
    and v1: "node_at T p1 = Some d1" and v2: "node_at T p2 = Some d2"
    and n1: "is_named ''dd'' d1" and n2: "is_named ''dd'' d2"
    and e1: "p1 \<noteq> []" and e2: "p2 \<noteq> []" and ne: "p1 \<noteq> p2"
  shows "take (length p1) (p2 @ qm) \<noteq> p1"
proof
  assume eq: "take (length p1) (p2 @ qm) = p1"
  have f1: "find_all (is_named ''dd'') d1 = []"
    using f in_find_all[OF v1 e1, of "is_named ''dd''", OF n1] by (auto simp: details_flat_def)
  have f2: "find_all (is_named ''dd'') d2 = []"
    using f in_find_all[OF v2 e2, of "is_named ''dd''", OF n2] by (auto simp: details_flat_def)
  show False
  proof (cases "length p1 \<le> length p2")
    case True
    with eq have t: "take (length p1) p2 = p1" by simp
    define r where "r = drop (length p1) p2"
    have p2: "p2 = p1 @ r" unfolding r_def using t by (metis append_take_drop_id)
    with ne have r: "r \<noteq> []" by auto
    from v2 have "node_at d1 r = Some d2" unfolding p2 by (simp add: node_at_append v1)
    from in_find_all[OF this r, of "is_named ''dd''", OF n2] f1 show False by simp
  next
    case False
    define r where "r = take (length p1 - length p2) qm"
    from False eq have p1: "p1 = p2 @ r" unfolding r_def by simp
    with ne have r: "r \<noteq> []" by auto
    from v1 have "node_at d2 r = Some d1" unfolding p1 by (simp add: node_at_append v2)
    from in_find_all[OF this r, of "is_named ''dd''", OF n1] f2 show False by simp
  qed
qed

lemma find_next_sibling_path:
  "find_next_sibling T p nm = Some (pd, d) \<Longrightarrow> pd \<noteq> []"
  by (auto simp: find_next_sibling_def split: if_splits option.splits list.splits)

lemma reread_insert_other:
  assumes v: "node_at T (pdd0 @ qm) = Some (Tag m a ks)" and i: "i \<le> length ks"
    and p: "node_at T p = Some dt"
    and ready: "detail_ready T (p, dt)"
    and fl: "details_flat T"
    and v0: "node_at T pdd0 = Some dd0" and n0: "is_named ''dd'' dd0" and e0: "pdd0 \<noteq> []"
    and c0: "find_tag (\<lambda>k. is_named ''div'' k \<and> has_class ''list-abstract'' k) dd0 = None"
  shows "reread (update_at (pdd0 @ qm) (tag_insert i (new_abstract_div ab)) T)
           (shifted (pdd0 @ qm) i p, grown (pdd0 @ qm) i (new_abstract_div ab) p dt) =
         reread T (p, dt)"
proof (cases "derive_dt T (p, dt)")
  case None
  from derive_dt_insert_None[OF v i p None, of ab] None show ?thesis
    by (simp add: reread_def)
next
  case (Some res)
  let ?q = "pdd0 @ qm"
  let ?c = "new_abstract_div ab"
  let ?C = "\<lambda>k. is_named ''div'' k \<and> has_class ''list-abstract'' k"
  obtain aid t hl pdd dd where res: "res = (aid, t, hl, pdd, dd)" by (cases res) auto
  note de = Some[unfolded res]
  from ready de have c: "find_tag ?C dd \<noteq> None" by (simp add: detail_ready_def)
  have n: "find_next_sibling T p ''dd'' = Some (pdd, dd)" using de by (rule derive_dt_detail_path)
  have vd: "node_at T pdd = Some dd" using n by (rule find_next_sibling_node_at)
  have nd: "is_named ''dd'' dd" using n by (rule find_next_sibling_named)
  have ed: "pdd \<noteq> []" using n by (rule find_next_sibling_path)
  have "pdd \<noteq> pdd0" using vd v0 c c0 by auto
  from details_apart[OF fl vd v0 nd n0 ed e0 this, of qm]
  have g: "grown ?q i ?c pdd dd = dd" by (simp add: grown_eq)
  from derive_dt_insert_fwd[OF v i p de, of ab] obtain qt td where
    t1: "find_tag (\<lambda>k. is_named ''div'' k \<and> has_class ''list-title'' k) dd = Some (qt, td)" and
    d1: "derive_dt (update_at ?q (tag_insert i ?c) T) (shifted ?q i p, grown ?q i ?c p dt) =
           Some (aid, clean_title (get_text td), hl, shifted ?q i pdd, dd)"
    unfolding g by blast
  from de[unfolded derive_dt_parts] t1 have "t = clean_title (get_text td)" by auto
  with d1 de show ?thesis by (simp add: reread_def)
qed

lemma new_abstract_div_fresh:
  "\<forall>x \<in> set (descendants (new_abstract_div a)).
     \<not> (is_named ''div'' (snd x) \<and> has_class ''list-abstract'' (snd x))"
  by (simp add: new_abstract_div_def)

lemma reread_insert_target:
  assumes de: "derive_dt T (p, dt) = Some (aid, t, hl, pdd, dd)"
    and c0: "find_tag (\<lambda>k. is_named ''div'' k \<and> has_class ''list-abstract'' k) dd = None"
    and vm: "node_at dd qm = Some (Tag m a ks)" and i: "i \<le> length ks"
    and mt: "qm = [] \<or> is_named ''div'' (Tag m a ks) \<and> has_class ''meta'' (Tag m a ks)"
    and cl: "titles_clear T"
    and p: "node_at T p = Some dt"
    and ab: "ab \<noteq> []" "strip ab = ab" "re_search pat_abstract ab = None"
  shows "reread (update_at (pdd @ qm) (tag_insert i (new_abstract_div ab)) T)
           (shifted (pdd @ qm) i p, grown (pdd @ qm) i (new_abstract_div ab) p dt) =
         Some (make_paper_data t hl aid (Some ab))"
proof -
  let ?q = "pdd @ qm"
  let ?c = "new_abstract_div ab"
  let ?C = "\<lambda>k. is_named ''div'' k \<and> has_class ''list-abstract'' k"
  let ?Tt = "\<lambda>k. is_named ''div'' k \<and> has_class ''list-title'' k"
  let ?M = "\<lambda>k. is_named ''div'' k \<and> has_class ''meta'' k"
  let ?dd1 = "update_at qm (tag_insert i ?c) dd"
  have n: "find_next_sibling T p ''dd'' = Some (pdd, dd)" using de by (rule derive_dt_detail_path)
  have vd: "node_at T pdd = Some dd" using n by (rule find_next_sibling_node_at)
  have v: "node_at T ?q = Some (Tag m a ks)" using vd vm by (simp add: node_at_append)
  have g: "grown ?q i ?c pdd dd = ?dd1" by (rule grown_prefix)
  from de[unfolded derive_dt_parts] obtain qt0 td0 where
    t0: "find_tag ?Tt dd = Some (qt0, td0)" and t: "t = clean_title (get_text td0)" by blast
  from derive_dt_insert_fwd[OF v i p de, of ab] obtain qt td where
    t1: "find_tag ?Tt ?dd1 = Some (qt, td)" and
    d1: "derive_dt (update_at ?q (tag_insert i ?c) T) (shifted ?q i p, grown ?q i ?c p dt) =
           Some (aid, clean_title (get_text td), hl, shifted ?q i pdd, ?dd1)"
    unfolding g by blast
  have fa: "find_all ?Tt ?dd1 = map (\<lambda>(r, x). (shifted qm i r, grown qm i ?c r x)) (find_all ?Tt dd)"
    by (rule find_all_insert[OF by_head_class new_abstract_div_no_title vm i])
  from t0 obtain rest where "find_all ?Tt dd = (qt0, td0) # rest"
    by (auto simp: find_tag_def split: list.splits)
  with fa t1 have td: "td = grown qm i ?c qt0 td0" by (simp add: find_tag_def)
  from find_tag_SomeD[OF t0] have m0: "(qt0, td0) \<in> set (descendants dd)" and tt: "?Tt td0"
    by auto
  from m0 have e0: "qt0 \<noteq> []" and v0: "node_at dd qt0 = Some td0"
    by (simp_all add: descendants_node_at)
  have "node_at T (pdd @ qt0) = Some td0" using vd v0 by (simp add: node_at_append)
  from in_find_all[OF this, of ?Tt] e0 tt have "(pdd @ qt0, td0) \<in> set (find_all ?Tt T)" by simp
  with cl have k0: "\<not> has_class ''meta'' td0" "find_all ?M td0 = []"
    by (auto simp: titles_clear_def)
  have "take (length qt0) qm \<noteq> qt0"
  proof
    assume eq: "take (length qt0) qm = qt0"
    define r where "r = drop (length qt0) qm"
    have qm: "qm = qt0 @ r" unfolding r_def using eq by (metis append_take_drop_id)
    with e0 have "qm \<noteq> []" by auto
    with mt have M: "?M (Tag m a ks)" by blast
    from vm have vr: "node_at td0 r = Some (Tag m a ks)" unfolding qm by (simp add: node_at_append v0)
    show False
    proof (cases "r = []")
      case True
      with vr have e: "td0 = Tag m a ks" by simp
      from k0(1) M show False unfolding e by blast
    next
      case False
      from in_find_all[OF vr False, of ?M, OF M] k0(2) show False by simp
    qed
  qed
  then have "td = td0" unfolding td by (simp add: grown_eq)
  with d1 t have d2: "derive_dt (update_at ?q (tag_insert i ?c) T)
                        (shifted ?q i p, grown ?q i ?c p dt) =
                      Some (aid, t, hl, shifted ?q i pdd, ?dd1)" by simp
  from c0 have "find_all ?C dd = []" by (simp add: find_tag_def split: list.splits)
  from find_all_insert_fresh[OF by_head_class _ new_abstract_div_fresh vm i this, of ab]
  have "find_all ?C ?dd1 = [(qm @ [i], ?c)]" using new_abstract_div_container by simp
  then have c1: "find_tag ?C ?dd1 = Some (qm @ [i], ?c)" by (simp add: find_tag_def)
  show ?thesis
    by (simp add: reread_def d2 c1 reread_new_container[OF ab])
qed

lemma map_filter_append:
  "List.map_filter f (xs @ ys) = List.map_filter f xs @ List.map_filter f ys"
  by (simp add: List.map_filter_def)

lemma map_filter_map:
  "List.map_filter f (map g xs) = List.map_filter (\<lambda>x. f (g x)) xs"
  by (simp add: List.map_filter_def filter_map comp_def)

lemma map_filter_cong:
  "(\<And>x. x \<in> set xs \<Longrightarrow> f x = g x) \<Longrightarrow> List.map_filter f xs = List.map_filter g xs"
  by (simp add: List.map_filter_def cong: filter_cong map_cong)

lemma enrich_dt_same:
  assumes s: "enrich_dt session k st = Inr st'"
    and k: "k < length (find_all (is_named ''dt'') (es_soup st))"
    and r: "\<forall>j<k. detail_ready (es_soup st) (find_all (is_named ''dt'') (es_soup st) ! j)"
    and rec: "papers_data st =
                List.map_filter (reread (es_soup st)) (take k (find_all (is_named ''dt'') (es_soup st)))"
    and fl: "details_flat (es_soup st)" and cl: "titles_clear (es_soup st)"
    and good: "\<forall>aid. fetched st' = fetched st @ [aid] \<longrightarrow>
                 (\<exists>ab. get_abstract session aid = Some ab \<and> ab \<noteq> []
                        \<and> re_search pat_abstract ab = None)"
  shows "papers_data st' =
           List.map_filter (reread (es_soup st'))
             (take (Suc k) (find_all (is_named ''dt'') (es_soup st')))
         \<and> details_flat (es_soup st') \<and> titles_clear (es_soup st')"
proof -
  let ?T = "es_soup st"
  let ?dts = "find_all (is_named ''dt'') ?T"
  let ?C = "\<lambda>k. is_named ''div'' k \<and> has_class ''list-abstract'' k"
  have tk: "take (Suc k) ?dts = take k ?dts @ [?dts ! k]"
    using k by (rule take_Suc_conv_app_nth)
  obtain p dt where pd: "?dts ! k = (p, dt)" by (cases "?dts ! k")
  have "(p, dt) \<in> set ?dts" using k pd by (metis nth_mem)
  then have vp: "node_at ?T p = Some dt" by (auto dest: find_all_node_at)
  from s k show ?thesis
  proof (cases rule: enrich_dt_cases)
    case skip
    from skip(1) have "reread ?T (?dts ! k) = None" by (simp add: reread_def)
    then show ?thesis
      using rec fl cl by (simp add: skip(2) tk map_filter_append List.map_filter_simps)
  next
    case (again aid t hl pdd dd qa ea)
    from again(1,2) have "reread ?T (?dts ! k) =
        Some (make_paper_data t hl aid (Some (strip (re_sub pat_abstract (get_text ea)))))"
      by (simp add: reread_def)
    then show ?thesis
      using rec fl cl by (simp add: again(3) tk map_filter_append List.map_filter_simps)
  next
    case (absent aid t hl pdd dd)
    from good absent(4) obtain ab where "get_abstract session aid = Some ab" "ab \<noteq> []" by blast
    with absent(3) show ?thesis by simp
  next
    case (fetch aid t hl pdd dd ab qm i m a ks)
    let ?c = "new_abstract_div ab"
    let ?q = "pdd @ qm"
    let ?T1 = "update_at ?q (tag_insert i ?c) ?T"
    let ?phi = "\<lambda>(r, x). (shifted ?q i r, grown ?q i ?c r x)"
    have so: "es_soup st' = ?T1" and pa: "papers_data st' =
               papers_data st @ [make_paper_data t hl aid (Some ab)]"
      and fe: "fetched st' = fetched st @ [aid]"
      by (simp_all add: fetch(8))
    from good fe fetch(3) have lf: "re_search pat_abstract ab = None" by auto
    have sa: "strip ab = ab" using fetch(3) by (rule get_abstract_stripped)
    have de: "derive_dt ?T (p, dt) = Some (aid, t, hl, pdd, dd)" using fetch(1) pd by simp
    have n: "find_next_sibling ?T p ''dd'' = Some (pdd, dd)" using de by (rule derive_dt_detail_path)
    have vd: "node_at ?T pdd = Some dd" using n by (rule find_next_sibling_node_at)
    have nd: "is_named ''dd'' dd" using n by (rule find_next_sibling_named)
    have ed: "pdd \<noteq> []" using n by (rule find_next_sibling_path)
    have v: "node_at ?T ?q = Some (Tag m a ks)" using vd fetch(5) by (simp add: node_at_append)
    have dts1: "find_all (is_named ''dt'') ?T1 = map ?phi ?dts"
      by (rule find_all_insert[OF by_head_named new_abstract_div_no_dt v fetch(6)])
    have old: "List.map_filter (reread ?T1) (map ?phi (take k ?dts)) =
               List.map_filter (reread ?T) (take k ?dts)"
      unfolding map_filter_map
    proof (rule map_filter_cong)
      fix x assume x: "x \<in> set (take k ?dts)"
      obtain pj dtj where pj: "x = (pj, dtj)" by (cases x)
      from x obtain j where j: "j < k" and xj: "?dts ! j = x"
        using k by (auto simp: in_set_conv_nth)
      from x have "x \<in> set ?dts" by (rule in_set_takeD)
      then have vj: "node_at ?T pj = Some dtj" unfolding pj by (auto dest: find_all_node_at)
      from r j xj pj have rj: "detail_ready ?T (pj, dtj)" by auto
      show "reread ?T1 (?phi x) = reread ?T x"
        unfolding pj using reread_insert_other[OF v fetch(6) vj rj fl vd nd ed fetch(2), of ab]
        by simp
    qed
    have new: "reread ?T1 (?phi (?dts ! k)) = Some (make_paper_data t hl aid (Some ab))"
      unfolding pd
      using reread_insert_target[OF de fetch(2) fetch(5) fetch(6) fetch(7) cl vp fetch(4) sa lf]
      by simp
    have "take (Suc k) (find_all (is_named ''dt'') ?T1) =
            map ?phi (take k ?dts) @ [?phi (?dts ! k)]"
      unfolding dts1 using k by (simp add: take_map tk)
    then have "List.map_filter (reread ?T1) (take (Suc k) (find_all (is_named ''dt'') ?T1)) =
            List.map_filter (reread ?T) (take k ?dts) @ [make_paper_data t hl aid (Some ab)]"
      by (simp add: map_filter_append old new List.map_filter_simps)
    moreover have "details_flat ?T1" using fl v fetch(6) by (rule details_flat_insert)
    moreover have "titles_clear ?T1" using cl v fetch(6) by (rule titles_clear_insert)
    ultimately show ?thesis unfolding so pa rec by simp
  qed
qed

lemma enrich_loop_same:
  assumes "enrich_loop session [k ..< n] st = Inr st'"
    and "k \<le> n"
    and "length (find_all (is_named ''dt'') (es_soup st)) = n"
    and "\<forall>j<k. detail_ready (es_soup st) (find_all (is_named ''dt'') (es_soup st) ! j)"
    and "papers_data st =
           List.map_filter (reread (es_soup st)) (take k (find_all (is_named ''dt'') (es_soup st)))"
    and "details_flat (es_soup st)" and "titles_clear (es_soup st)"
    and "\<forall>aid \<in> set (fetched st'). truthy (get_abstract session aid)"
    and "\<forall>aid \<in> set (fetched st'). \<forall>ab. get_abstract session aid = Some ab
           \<longrightarrow> re_search pat_abstract ab = None"
  shows "papers_data st' =
           List.map_filter (reread (es_soup st')) (find_all (is_named ''dt'') (es_soup st'))"
  using assms
proof (induction "n - k" arbitrary: k st)
  case 0
  then have "k = n" by simp
  with 0 show ?case by simp
next
  case (Suc d)
  then have kn: "k < n" by simp
  then have u: "[k ..< n] = k # [Suc k ..< n]" by (rule upt_conv_Cons)
  from Suc.prems(1) obtain st1 where
    s1: "enrich_dt session k st = Inr st1" and
    s2: "enrich_loop session [Suc k ..< n] st1 = Inr st'"
    unfolding u by (auto split: sum.splits)
  from enrich_loop_fetched[OF s2] obtain xs where xs: "fetched st' = fetched st1 @ xs" by blast
  have tr: "\<forall>aid. fetched st1 = fetched st @ [aid] \<longrightarrow> truthy (get_abstract session aid)"
  proof (intro allI impI)
    fix aid assume "fetched st1 = fetched st @ [aid]"
    then have "aid \<in> set (fetched st')" by (simp add: xs)
    with Suc.prems(8) show "truthy (get_abstract session aid)" by blast
  qed
  have good: "\<forall>aid. fetched st1 = fetched st @ [aid] \<longrightarrow>
                 (\<exists>ab. get_abstract session aid = Some ab \<and> ab \<noteq> []
                        \<and> re_search pat_abstract ab = None)"
  proof (intro allI impI)
    fix aid assume "fetched st1 = fetched st @ [aid]"
    then have m: "aid \<in> set (fetched st')" by (simp add: xs)
    with Suc.prems(8) have "truthy (get_abstract session aid)" by blast
    then obtain ab where ab: "get_abstract session aid = Some ab" "ab \<noteq> []"
      by (cases "get_abstract session aid") auto
    with m Suc.prems(9) have "re_search pat_abstract ab = None" by blast
    with ab show "\<exists>ab. get_abstract session aid = Some ab \<and> ab \<noteq> []
                        \<and> re_search pat_abstract ab = None" by blast
  qed
  have k': "k < length (find_all (is_named ''dt'') (es_soup st))"
    using kn Suc.prems(3) by simp
  from enrich_dt_ready[OF s1 k' Suc.prems(4) tr]
  have l1: "length (find_all (is_named ''dt'') (es_soup st1)) = n"
    and r1: "\<forall>j<Suc k. detail_ready (es_soup st1) (find_all (is_named ''dt'') (es_soup st1) ! j)"
    using Suc.prems(3) by simp_all
  from enrich_dt_same[OF s1 k' Suc.prems(4) Suc.prems(5) Suc.prems(6) Suc.prems(7) good]
  have c1: "papers_data st1 =
           List.map_filter (reread (es_soup st1))
             (take (Suc k) (find_all (is_named ''dt'') (es_soup st1)))"
    and f1: "details_flat (es_soup st1)" and t1: "titles_clear (es_soup st1)"
    by simp_all
  have dk: "d = n - Suc k" using Suc.hyps(2) by simp
  have sk: "Suc k \<le> n" using kn by simp
  from Suc.hyps(1)[OF dk s2 sk l1 r1 c1 f1 t1 Suc.prems(8) Suc.prems(9)] show ?case .
qed

lemma first_run_records:
  assumes "add_abstracts_to_html session html = Inr st"
    and "\<forall>aid \<in> set (fetched st). truthy (get_abstract session aid)"
    and "\<forall>aid \<in> set (fetched st). \<forall>ab. get_abstract session aid = Some ab
           \<longrightarrow> re_search pat_abstract ab = None"
    and "details_flat html" and "titles_clear html"
  shows "papers_data st =
           List.map_filter (reread (es_soup st)) (find_all (is_named ''dt'') (es_soup st))"
proof -
  let ?n = "length (find_all (is_named ''dt'') html)"
  let ?init = "\<lparr>es_soup = html, papers_data = [], processed_count = 0, fetched = [], sleeps = 0\<rparr>"
  have l: "enrich_loop session [0 ..< ?n] ?init = Inr st"
    using assms(1) by (simp add: add_abstracts_to_html_def)
  have n: "length (find_all (is_named ''dt'') (es_soup ?init)) = ?n" by simp
  have z: "\<forall>j<0. detail_ready (es_soup ?init) (find_all (is_named ''dt'') (es_soup ?init) ! j)"
    by simp
  have c: "papers_data ?init =
             List.map_filter (reread (es_soup ?init))
               (take 0 (find_all (is_named ''dt'') (es_soup ?init)))"
    by (simp add: List.map_filter_simps)
  have f: "details_flat (es_soup ?init)" and t: "titles_clear (es_soup ?init)"
    using assms(4,5) by simp_all
  from enrich_loop_same[OF l _ n z c f t assms(2,3)] show ?thesis by simp
qed

lemma enrich_dt_count:
  "enrich_dt session k st = Inr st' \<Longrightarrow> processed_count st = length (papers_data st) \<Longrightarrow>
   processed_count st' = length (papers_data st')"
  by (auto simp: enrich_dt_def Let_def split: list.splits option.splits sum.splits if_splits)

lemma enrich_loop_count:
  "enrich_loop session ks st = Inr st' \<Longrightarrow> processed_count st = length (papers_data st) \<Longrightarrow>
   processed_count st' = length (papers_data st')"
proof (induction ks arbitrary: st)
  case Nil
  then show ?case by simp
next
  case (Cons k ks)
  from Cons.prems(1) obtain st1 where
    s1: "enrich_dt session k st = Inr st1" and s2: "enrich_loop session ks st1 = Inr st'"
    by (auto split: sum.splits)
  from Cons.IH[OF s2 enrich_dt_count[OF s1 Cons.prems(2)]] show ?case .
qed

lemma enrich_dt_no_cr:
  assumes s: "enrich_dt session k st = Inr st'" and c: "no_cr (es_soup st)"
    and a: "\<forall>aid ab. fetched st' = fetched st @ [aid] \<longrightarrow> get_abstract session aid = Some ab
              \<longrightarrow> CHR 0x0D \<notin> set ab"
  shows "no_cr (es_soup st')"
proof (cases "k < length (find_all (is_named ''dt'') (es_soup st))")
  case False
  with s have "st' = st" by (simp add: enrich_dt_def)
  with c show ?thesis by simp
next
  case True
  from s True show ?thesis
  proof (cases rule: enrich_dt_cases)
    case skip
    with c show ?thesis by simp
  next
    case (again aid t hl pdd dd qa ea)
    with c show ?thesis by simp
  next
    case (absent aid t hl pdd dd)
    with c show ?thesis by simp
  next
    case (fetch aid t hl pdd dd ab qm i m a' ks)
    have "fetched st' = fetched st @ [aid]" by (simp add: fetch(8))
    with a fetch(3) have "CHR 0x0D \<notin> set ab" by blast
    then have "no_cr (new_abstract_div ab)" by (rule no_cr_new_abstract_div)
    then have "no_cr (update_at (pdd @ qm) (tag_insert i (new_abstract_div ab)) (es_soup st))"
      using c by (intro no_cr_update_at no_cr_tag_insert)
    then show ?thesis by (simp add: fetch(8))
  qed
qed

lemma enrich_loop_no_cr:
  assumes "enrich_loop session ks st = Inr st'" and "no_cr (es_soup st)"
    and "\<forall>aid \<in> set (fetched st'). \<forall>ab. get_abstract session aid = Some ab
           \<longrightarrow> CHR 0x0D \<notin> set ab"
  shows "no_cr (es_soup st')"
  using assms
proof (induction ks arbitrary: st)
  case Nil
  then show ?case by simp
next
  case (Cons k ks)
  from Cons.prems(1) obtain st1 where
    s1: "enrich_dt session k st = Inr st1" and s2: "enrich_loop session ks st1 = Inr st'"
    by (auto split: sum.splits)
  from enrich_loop_fetched[OF s2] obtain xs where xs: "fetched st' = fetched st1 @ xs" by blast
  have "\<forall>aid ab. fetched st1 = fetched st @ [aid] \<longrightarrow> get_abstract session aid = Some ab
              \<longrightarrow> CHR 0x0D \<notin> set ab"
  proof (intro allI impI)
    fix aid ab assume "fetched st1 = fetched st @ [aid]" and g: "get_abstract session aid = Some ab"
    then have "aid \<in> set (fetched st')" by (simp add: xs)
    with Cons.prems(3) g show "CHR 0x0D \<notin> set ab" by blast
  qed
  from enrich_dt_no_cr[OF s1 Cons.prems(2) this] have "no_cr (es_soup st1)" .
  from Cons.IH[OF s2 this Cons.prems(3)] show ?case .
qed

section \<open>Facts about the file read back\<close>

lemma un_Cons: "c \<noteq> CHR 0x0D \<Longrightarrow> universal_newlines (c # s) = c # universal_newlines s"
  by (cases s) simp_all

lemma un_CR: "\<exists>r. universal_newlines (CHR 0x0D # s) = CHR 0x0A # r"
  by (cases s) simp_all

lemma takeWhile_isdigit_un: "takeWhile isdigit (universal_newlines s) = takeWhile isdigit s"
  by (induction s rule: universal_newlines.induct) (auto simp: isdigit_def)

lemma dropWhile_isdigit_un:
  "dropWhile isdigit (universal_newlines s) = universal_newlines (dropWhile isdigit s)"
  by (induction s rule: universal_newlines.induct) (auto simp: isdigit_def)

lemma dropWhile_isspace_un:
  "dropWhile isspace (universal_newlines s) = universal_newlines (dropWhile isspace s)"
  by (induction s rule: universal_newlines.induct) (auto simp: isspace_def)

lemma split_acc_un: "split_acc w (universal_newlines s) = split_acc w s"
  by (induction s arbitrary: w rule: universal_newlines.induct) (auto simp: isspace_def)

lemma split_ws_un: "split_ws (universal_newlines s) = split_ws s"
  by (simp add: split_ws_def split_acc_un)

lemma lit_un:
  "CHR 0x0D \<notin> set p \<Longrightarrow> CHR 0x0A \<notin> set p \<Longrightarrow>
   lit p (universal_newlines s) = map_option universal_newlines (lit p s)"
proof (induction p arbitrary: s)
  case Nil
  then show ?case by simp
next
  case (Cons x p)
  show ?case
  proof (cases s)
    case Nil
    then show ?thesis by simp
  next
    case (Cons c cs)
    show ?thesis
    proof (cases "c = CHR 0x0D")
      case True
      obtain r where "universal_newlines (CHR 0x0D # cs) = CHR 0x0A # r" using un_CR by blast
      with True Cons.prems show ?thesis unfolding Cons by auto
    next
      case False
      with Cons.IH[of cs] Cons.prems show ?thesis unfolding Cons by (simp add: un_Cons)
    qed
  qed
qed

lemma match_num_un:
  "match_num (universal_newlines s) =
     map_option (\<lambda>(g, r). (g, universal_newlines r)) (match_num s)"
proof (cases "dropWhile isdigit s")
  case Nil
  show ?thesis
    unfolding match_num_def takeWhile_isdigit_un dropWhile_isdigit_un Nil by (simp add: Let_def)
next
  case (Cons c r2)
  show ?thesis
  proof (cases "c = CHR ''.''")
    case True
    then have u: "universal_newlines (c # r2) = c # universal_newlines r2" by (simp add: un_Cons)
    show ?thesis
      unfolding match_num_def takeWhile_isdigit_un dropWhile_isdigit_un Cons u
      using True by (simp add: Let_def takeWhile_isdigit_un dropWhile_isdigit_un)
  next
    case False
    have "\<exists>c' r'. universal_newlines (c # r2) = c' # r' \<and> c' \<noteq> CHR ''.''"
    proof (cases "c = CHR 0x0D")
      case True
      then show ?thesis using un_CR[of r2] by auto
    next
      case c: False
      with False show ?thesis by (simp add: un_Cons)
    qed
    then obtain c' r' where u: "universal_newlines (c # r2) = c' # r'" and "c' \<noteq> CHR ''.''" by blast
    then show ?thesis
      unfolding match_num_def takeWhile_isdigit_un dropWhile_isdigit_un Cons u
      using False by (simp add: Let_def)
  qed
qed

lemma pat_abs_un:
  "pat_abs (universal_newlines s) = map_option (\<lambda>(g, r). (g, universal_newlines r)) (pat_abs s)"
  by (cases "lit ''/abs/'' s") (simp_all add: pat_abs_def lit_un match_num_un)

lemma pat_id_un:
  "pat_id (universal_newlines s) = map_option (\<lambda>(g, r). (g, universal_newlines r)) (pat_id s)"
  by (cases "lit ''/'' s") (simp_all add: pat_id_def lit_un match_num_un)

lemma re_search_un:
  assumes m: "\<And>s. pat (universal_newlines s) =
                   map_option (\<lambda>(g, r). (g, universal_newlines r)) (pat s)"
    and c: "\<And>s. pat (CHR 0x0D # s) = None" and l: "\<And>s. pat (CHR 0x0A # s) = None"
  shows "map_option fst (re_search pat (universal_newlines s)) = map_option fst (re_search pat s)"
proof (induction s rule: universal_newlines.induct)
  case 1
  then show ?case by simp
next
  case (2 x)
  have "pat (universal_newlines [x]) = map_option (\<lambda>(g, r). (g, universal_newlines r)) (pat [x])"
    by (rule m)
  then show ?case
    by (cases "pat [x]") (auto simp: c l case_prod_beta split: option.splits)
next
  case (3 x d cs)
  show ?case
  proof (cases "x = CHR 0x0D")
    case True
    then show ?thesis using 3 by (auto simp: c l)
  next
    case False
    have "pat (universal_newlines (x # d # cs)) =
            map_option (\<lambda>(g, r). (g, universal_newlines r)) (pat (x # d # cs))"
      by (rule m)
    moreover have "universal_newlines (x # d # cs) = x # universal_newlines (d # cs)"
      using False by simp
    ultimately show ?thesis
      using 3(3)[OF False] by (cases "pat (x # d # cs)") (auto simp: case_prod_beta)
  qed
qed

lemma lit_newline: "p \<noteq> [] \<Longrightarrow> hd p \<noteq> c \<Longrightarrow> lit p (c # s) = None"
  by (cases p) auto

lemma re_search_abs_un:
  "map_option fst (re_search pat_abs (universal_newlines s)) = map_option fst (re_search pat_abs s)"
  by (rule re_search_un) (simp_all add: pat_abs_un, simp_all add: pat_abs_def)

lemma re_search_id_un:
  "map_option fst (re_search pat_id (universal_newlines s)) = map_option fst (re_search pat_id s)"
  by (rule re_search_un) (simp_all add: pat_id_un, simp_all add: pat_id_def)

lemma attr_read_back: "attr (read_back y) key = map_option universal_newlines (attr y key)"
  by (cases y) (simp_all add: map_of_map)

lemma is_named_read_back: "is_named nm (read_back y) = is_named nm y"
  by (cases y) simp_all

lemma has_class_read_back: "has_class cls (read_back y) = has_class cls y"
  by (cases "attr y ''class''") (simp_all add: has_class_def attr_read_back split_ws_un)

lemma href_of_read_back: "href_of (read_back y) = universal_newlines (href_of y)"
  by (cases "attr y ''href''") (simp_all add: href_of_def attr_read_back)

lemma href_search_abs_read_back: "href_search pat_abs (read_back y) = href_search pat_abs y"
proof (cases "attr y ''href''")
  case None
  then show ?thesis by (simp add: href_search_def attr_read_back)
next
  case (Some v)
  from re_search_abs_un[of v] have "re_search pat_abs (universal_newlines v) = None
      \<longleftrightarrow> re_search pat_abs v = None"
    by (metis option.map_disc_iff)
  with Some show ?thesis by (simp add: href_search_def attr_read_back)
qed

lemma contents_read_back: "contents (read_back x) = map read_back (contents x)"
  by (cases x) simp_all

lemma descendants_read_back:
  "descendants (read_back x) = map (\<lambda>(p, y). (p, read_back y)) (descendants x)"
  "kids_descendants i (map read_back ks) = map (\<lambda>(p, y). (p, read_back y)) (kids_descendants i ks)"
  by (induction x and i ks rule: descendants_kids_descendants.induct)
     (simp_all add: case_prod_unfold comp_def)

lemma find_all_read_back:
  assumes "\<And>y. P (read_back y) = P y"
  shows "find_all P (read_back x) = map (\<lambda>(p, y). (p, read_back y)) (find_all P x)"
  unfolding find_all_def descendants_read_back
  by (simp add: filter_map comp_def case_prod_unfold assms)

lemma find_tag_read_back:
  assumes "\<And>y. P (read_back y) = P y"
  shows "find_tag P (read_back x) = map_option (\<lambda>(p, y). (p, read_back y)) (find_tag P x)"
  unfolding find_tag_def find_all_read_back[of P, OF assms]
  by (cases "find_all P x") simp_all

lemma node_at_read_back: "node_at (read_back x) p = map_option read_back (node_at x p)"
proof (induction p arbitrary: x)
  case Nil
  then show ?case by simp
next
  case (Cons j p)
  then show ?case by (cases x) simp_all
qed

lemma find_next_sibling_read_back:
  "find_next_sibling (read_back T) p nm =
     map_option (\<lambda>(q, d). (q, read_back d)) (find_next_sibling T p nm)"
proof (cases "p = []")
  case True
  then show ?thesis by (simp add: find_next_sibling_def)
next
  case False
  show ?thesis
  proof (cases "node_at T (butlast p)")
    case None
    with False show ?thesis by (simp add: find_next_sibling_def node_at_read_back)
  next
    case (Some parent)
    let ?ks = "contents parent"
    have f: "filter (\<lambda>j. is_named nm (map read_back ?ks ! j)) [Suc (last p) ..< length ?ks] =
             filter (\<lambda>j. is_named nm (?ks ! j)) [Suc (last p) ..< length ?ks]"
      by (rule filter_cong[OF refl]) (simp add: is_named_read_back)
    show ?thesis
    proof (cases "filter (\<lambda>j. is_named nm (?ks ! j)) [Suc (last p) ..< length ?ks]")
      case Nil
      with False Some f show ?thesis
        by (simp add: find_next_sibling_def node_at_read_back contents_read_back)
    next
      case (Cons j js)
      then have "j \<in> set (filter (\<lambda>j. is_named nm (?ks ! j)) [Suc (last p) ..< length ?ks])"
        by simp
      then have "j < length ?ks" by simp
      with False Some f Cons show ?thesis
        by (simp add: find_next_sibling_def node_at_read_back contents_read_back)
    qed
  qed
qed

lemma derive_dt_read_back:
  assumes "derive_dt (read_back T) (p, read_back dt) = Some (aid, t1, hl1, pdd, dd1)"
  shows "\<exists>t hl dd. derive_dt T (p, dt) = Some (aid, t, hl, pdd, dd) \<and> dd1 = read_back dd"
proof -
  let ?A = "\<lambda>k. is_named ''a'' k \<and> href_search pat_abs k"
  let ?Tt = "\<lambda>k. is_named ''div'' k \<and> has_class ''list-title'' k"
  have A: "\<And>y. ?A (read_back y) = ?A y"
    by (simp add: is_named_read_back href_search_abs_read_back)
  have Tt: "\<And>y. ?Tt (read_back y) = ?Tt y"
    by (simp add: is_named_read_back has_class_read_back)
  from assms[unfolded derive_dt_parts] obtain q1 l1 r1 qt1 td1 where
    a1: "find_tag ?A (read_back dt) = Some (q1, l1)" and
    s1: "re_search pat_id (href_of l1) = Some (aid, r1)" and
    n1: "find_next_sibling (read_back T) p ''dd'' = Some (pdd, dd1)" and
    t1: "find_tag ?Tt dd1 = Some (qt1, td1)" by blast
  from a1 obtain l0 where a0: "find_tag ?A dt = Some (q1, l0)" and l1: "l1 = read_back l0"
    unfolding find_tag_read_back[of ?A, OF A] by (cases "find_tag ?A dt") auto
  from s1 re_search_id_un[of "href_of l0"] obtain r0 where
    s0: "re_search pat_id (href_of l0) = Some (aid, r0)"
    unfolding l1 href_of_read_back by (cases "re_search pat_id (href_of l0)") auto
  from n1 obtain dd where n0: "find_next_sibling T p ''dd'' = Some (pdd, dd)"
    and dd: "dd1 = read_back dd"
    unfolding find_next_sibling_read_back by (cases "find_next_sibling T p ''dd''") auto
  from t1 obtain td0 where t0: "find_tag ?Tt dd = Some (qt1, td0)"
    unfolding dd find_tag_read_back[of ?Tt, OF Tt] by (cases "find_tag ?Tt dd") auto
  have "derive_dt T (p, dt) =
          Some (aid, clean_title (get_text td0), html_link_of_dt dt, pdd, dd)"
    unfolding derive_dt_parts using a0 s0 n0 t0 by simp
  with dd show ?thesis by blast
qed

lemma enriched_read_back:
  assumes "enriched T"
  shows "enriched (read_back T)"
  unfolding enriched_iff
proof
  let ?C = "\<lambda>k. is_named ''div'' k \<and> has_class ''list-abstract'' k"
  have C: "\<And>y. ?C (read_back y) = ?C y"
    by (simp add: is_named_read_back has_class_read_back)
  fix x assume "x \<in> set (find_all (is_named ''dt'') (read_back T))"
  then obtain p dt where m: "(p, dt) \<in> set (find_all (is_named ''dt'') T)"
    and x: "x = (p, read_back dt)"
    unfolding find_all_read_back[of "is_named ''dt''", OF is_named_read_back] by auto
  from assms m have r: "detail_ready T (p, dt)" by (simp add: enriched_iff)
  show "detail_ready (read_back T) x"
  proof (cases "derive_dt (read_back T) (p, read_back dt)")
    case None
    then show ?thesis by (simp add: detail_ready_def x)
  next
    case (Some res)
    obtain aid t1 hl1 pdd dd1 where res: "res = (aid, t1, hl1, pdd, dd1)" by (cases res) auto
    from derive_dt_read_back[OF Some[unfolded res]] obtain t hl dd where
      d: "derive_dt T (p, dt) = Some (aid, t, hl, pdd, dd)" and dd: "dd1 = read_back dd" by blast
    from r d have "find_tag ?C dd \<noteq> None" by (simp add: detail_ready_def)
    then have "find_tag ?C dd1 \<noteq> None"
      unfolding dd find_tag_read_back[of ?C, OF C] by simp
    then show ?thesis by (simp add: detail_ready_def x Some res)
  qed
qed

section \<open>The claims\<close>

subsection \<open>C1: one record per well-formed pair\<close>

text \<open>
  C1 fails on the code when a marker has no detail element of its own.  The comment of
  line 64 says that the \<open>dd\<close> follows the \<open>dt\<close> immediately, but
  \<open>find_next_sibling('dd')\<close> gives the first later sibling that is a \<open>dd\<close>, adjacent
  or not.  In \<open>two_markers_one_detail\<close> the second marker alone is a well-formed pair,
  and two records are yielded: the first has the identifier of the first marker and the
  title of the detail element of the second.
\<close>

theorem orphan_marker_takes_next_detail:
  "map (adjacent_pair two_markers_one_detail)
       (find_all (is_named ''dt'') two_markers_one_detail) = [False, True]
   \<and> get_papers_from_page (\<lambda>u. Some two_markers_one_detail) ''u'' =
       [\<lparr>arxiv_id = Some ''1.2'', title = ''Hello world'', authors = []\<rparr>,
        \<lparr>arxiv_id = Some ''3.4'', title = ''Hello world'', authors = []\<rparr>]"
  by code_simp

subsection \<open>C4: a short page ends the pagination\<close>

text \<open>
  C4: when the pages at the offsets \<open>0, 50, \<dots>, 50 (k - 1)\<close> are full and the page at
  offset \<open>50 k\<close> has fewer than 50 records (so that this page is fetched), the loop
  returns; the requests made are exactly those for the offsets \<open>0\<close> to \<open>50 k\<close>, none for
  a further page, and the records accumulated are those of the fetched pages, their
  number the sum of the pages' counts.
\<close>

theorem short_page_ends_pagination:
  assumes "\<forall>j<k. 50 \<le> length (get_papers_from_page session (page_url base_url (50 * j)))"
    and "length (get_papers_from_page session (page_url base_url (50 * k))) < 50"
  shows "\<exists>all_papers requests.
           scrape_all_papers session base_url = Some (all_papers, requests)
           \<and> requests = map (\<lambda>j. page_url base_url (50 * j)) [0..<Suc k]
           \<and> all_papers =
               concat (map (\<lambda>j. get_papers_from_page session (page_url base_url (50 * j)))
                         [0..<Suc k])
           \<and> length all_papers =
               sum_list (map (\<lambda>j. length (get_papers_from_page session (page_url base_url (50 * j))))
                           [0..<Suc k])"
proof -
  have "scrape_pages session base_url 0 [] [] =
          Some ([] @ concat (map (\<lambda>j. get_papers_from_page session (page_url base_url (0 + 50 * j)))
                               [0..<Suc k]),
                [] @ map (\<lambda>j. page_url base_url (0 + 50 * j)) [0..<Suc k])"
    by (rule scrape_pages_run) (use assms in simp_all)
  then show ?thesis
    by (simp add: scrape_all_papers_def length_concat comp_def del: upt_Suc)
qed

theorem short_page_ends_pagination_witness:
  "length (get_papers_from_page two_pages (page_url ''u'' (50 * 0))) = 50
   \<and> length (get_papers_from_page two_pages (page_url ''u'' (50 * 1))) = 1
   \<and> (\<exists>all_papers. scrape_all_papers two_pages ''u'' =
          Some (all_papers, [''u'', ''u?skip=50&show=50''])
        \<and> length all_papers = 51)"
proof -
  have u0: "page_url ''u'' (50 * 0) = ''u''" by code_simp
  have u1: "page_url ''u'' (50 * 1) = ''u?skip=50&show=50''" by code_simp
  have l0: "length (get_papers_from_page two_pages ''u'') = 50" by code_simp
  have l1: "length (get_papers_from_page two_pages ''u?skip=50&show=50'') = 1" by code_simp
  have h1: "\<forall>j<1. 50 \<le> length (get_papers_from_page two_pages (page_url ''u'' (50 * j)))"
    using u0 l0 by simp
  have h2: "length (get_papers_from_page two_pages (page_url ''u'' (50 * 1))) < 50"
    using u1 l1 by simp
  have up: "[0..<Suc 1] = [0, 1]" by (simp add: upt_rec)
  from short_page_ends_pagination[OF h1 h2]
  obtain all_papers requests where
    r: "scrape_all_papers two_pages ''u'' = Some (all_papers, requests)" and
    q: "requests = map (\<lambda>j. page_url ''u'' (50 * j)) [0..<Suc 1]" and
    n: "length all_papers =
          sum_list (map (\<lambda>j. length (get_papers_from_page two_pages (page_url ''u'' (50 * j))))
                      [0..<Suc 1])"
    by blast
  from q have q': "requests = [''u'', ''u?skip=50&show=50'']"
    unfolding up using u0 u1 by simp
  from n have n': "length all_papers = 51"
    unfolding up using u0 u1 l0 l1 by simp
  from r q' n' u0 u1 l0 l1 show ?thesis by simp
qed

subsection \<open>C5: an empty page ends the pagination\<close>

text \<open>
  C5: when the request for the page fails (\<open>session\<close> gives \<open>None\<close>: the
  \<open>RequestException\<close> is caught and \<open>get_papers_from_page\<close> returns the empty list), or
  the page yields no record, the loop ends at that page and returns the accumulator as
  it was before the page, whatever the offset and the accumulator are.
\<close>

theorem empty_page_ends_pagination:
  assumes "session (page_url base_url skip) = None
           \<or> get_papers_from_page session (page_url base_url skip) = []"
  shows "get_papers_from_page session (page_url base_url skip) = []
         \<and> scrape_pages session base_url skip all_papers requests =
             Some (all_papers, requests @ [page_url base_url skip])"
proof -
  from assms have e: "get_papers_from_page session (page_url base_url skip) = []"
    by (auto simp: get_papers_from_page_def)
  then show ?thesis
    by (subst scrape_pages.simps) (simp add: Let_def)
qed

theorem empty_page_ends_pagination_witness:
  "get_papers_from_page (\<lambda>u. None) (page_url ''u'' 100) = []
   \<and> scrape_pages (\<lambda>u. None) ''u'' 100
        [\<lparr>arxiv_id = Some ''1.2'', title = ''Hello world'', authors = []\<rparr>] [''u'']
      = Some ([\<lparr>arxiv_id = Some ''1.2'', title = ''Hello world'', authors = []\<rparr>],
              [''u''] @ [page_url ''u'' 100])"
proof -
  have h: "(\<lambda>u. None :: node option) (page_url ''u'' 100) = None
           \<or> get_papers_from_page (\<lambda>u. None) (page_url ''u'' 100) = []"
    by simp
  show ?thesis
    by (rule empty_page_ends_pagination[of "\<lambda>u. None" "''u''" 100, OF h])
qed

subsection \<open>C6: every record carries an identifier\<close>

text \<open>
  C6: every record of \<open>get_papers_from_page\<close> has the key \<open>arxiv_id\<close>, and its value
  matches \<open>\d+\.\d+\<close> from end to end; so does the identifier of every record of
  \<open>extract_papers_from_html\<close>; and a \<open>dt\<close> without a link holding an identifier
  yields no record in either.
\<close>

theorem extractors_emit_identifier:
  "(\<forall>paper \<in> set (get_papers_from_page session url). \<exists>i. arxiv_id paper = Some i \<and> is_id i)
   \<and> (\<forall>paper \<in> set (extract_papers_from_html html). is_id (hp_arxiv_id paper))
   \<and> (\<forall>pd. find_tag (\<lambda>k. is_named ''a'' k \<and> href_search pat_abs k) (snd pd) = None \<longrightarrow>
         scrape_dt soup pd = None \<and> extract_dt soup pd = None)"
proof (intro conjI ballI allI impI)
  fix paper assume "paper \<in> set (get_papers_from_page session url)"
  then obtain soup where "paper \<in> set (List.map_filter (scrape_dt soup) (find_all (is_named ''dt'') soup))"
    by (auto simp: get_papers_from_page_def papers_of_soup_def scrape_loop_eq split: option.splits)
  then obtain pd where "scrape_dt soup pd = Some paper" by (blast dest: map_filter_SomeD)
  then show "\<exists>i. arxiv_id paper = Some i \<and> is_id i" by (rule scrape_dt_id)
next
  fix paper assume "paper \<in> set (extract_papers_from_html html)"
  then obtain pd where "extract_dt html pd = Some paper"
    by (auto simp: extract_papers_from_html_def extract_loop_eq dest: map_filter_SomeD)
  then show "is_id (hp_arxiv_id paper)" by (rule extract_dt_id)
next
  fix pd :: "path \<times> node"
  assume "find_tag (\<lambda>k. is_named ''a'' k \<and> href_search pat_abs k) (snd pd) = None"
  then show "scrape_dt soup pd = None" by (cases pd) (simp add: scrape_dt_def)
next
  fix pd :: "path \<times> node"
  assume "find_tag (\<lambda>k. is_named ''a'' k \<and> href_search pat_abs k) (snd pd) = None"
  then show "extract_dt soup pd = None" by (cases pd) (simp add: extract_dt_def)
qed

theorem extractors_emit_identifier_witness:
  "get_papers_from_page (\<lambda>u. Some listing_page) ''u'' =
       [\<lparr>arxiv_id = Some ''2511.08583'', title = ''A Study of Robots'',
         authors = [''Ann Lee'', ''Bo Wu'']\<rparr>]
   \<and> is_id ''2511.08583''
   \<and> map hp_arxiv_id (extract_papers_from_html listing_page) = [''2511.08583'']
   \<and> find_tag (\<lambda>k. is_named ''a'' k \<and> href_search pat_abs k)
        (Tag ''dt'' [] [Tag ''a'' [(''href'', ''/abs/none'')] []]) = None
   \<and> scrape_dt listing_page ([0, 3], Tag ''dt'' [] [Tag ''a'' [(''href'', ''/abs/none'')] []]) = None
   \<and> extract_dt listing_page ([0, 3], Tag ''dt'' [] [Tag ''a'' [(''href'', ''/abs/none'')] []]) = None"
proof -
  let ?dt = "Tag ''dt'' [] [Tag ''a'' [(''href'', ''/abs/none'')] []]"
  let ?rec = "\<lparr>arxiv_id = Some ''2511.08583'', title = ''A Study of Robots'',
         authors = [''Ann Lee'', ''Bo Wu'']\<rparr>"
  note t = extractors_emit_identifier[of "\<lambda>u. Some listing_page" "''u''" listing_page listing_page]
  have v: "get_papers_from_page (\<lambda>u. Some listing_page) ''u'' = [?rec]"
    by code_simp
  have e: "map hp_arxiv_id (extract_papers_from_html listing_page) = [''2511.08583'']"
    by code_simp
  have n: "find_tag (\<lambda>k. is_named ''a'' k \<and> href_search pat_abs k) ?dt = None"
    by code_simp
  from t have t1: "\<forall>paper \<in> set (get_papers_from_page (\<lambda>u. Some listing_page) ''u'').
                     \<exists>i. arxiv_id paper = Some i \<and> is_id i"
    by (rule conjunct1)
  have "?rec \<in> set (get_papers_from_page (\<lambda>u. Some listing_page) ''u'')"
    unfolding v by simp
  with t1 obtain i where "arxiv_id ?rec = Some i" and "is_id i" by blast
  then have i: "is_id ''2511.08583''" by simp
  from t have t3: "\<forall>pd. find_tag (\<lambda>k. is_named ''a'' k \<and> href_search pat_abs k) (snd pd) = None \<longrightarrow>
         scrape_dt listing_page pd = None \<and> extract_dt listing_page pd = None"
    by (rule conjunct2[THEN conjunct2])
  have s: "snd ([0, 3] :: path, ?dt) = ?dt" by (rule snd_conv)
  from t3 have "find_tag (\<lambda>k. is_named ''a'' k \<and> href_search pat_abs k) (snd ([0, 3] :: path, ?dt)) = None \<longrightarrow>
         scrape_dt listing_page ([0, 3], ?dt) = None \<and> extract_dt listing_page ([0, 3], ?dt) = None"
    by (rule spec)
  with n have d: "scrape_dt listing_page ([0, 3], ?dt) = None \<and> extract_dt listing_page ([0, 3], ?dt) = None"
    unfolding s by (rule rev_mp)
  from v e n i d show ?thesis by (intro conjI) (rule v e n i d[THEN conjunct1] d[THEN conjunct2])+
qed

subsection \<open>C10: the authors of a record\<close>

text \<open>
  C10, as stated, has every author a non-empty string.  The text of an author link is
  taken with \<open>get_text(strip=True)\<close> and kept whatever it is: a link that holds only
  blanks gives the empty string.
\<close>

theorem blank_author_counterexample:
  "map authors (get_papers_from_page (\<lambda>u. Some blank_author_page) ''u'') = [['''']]"
  by code_simp

text \<open>
  C10, amended: every author of every record of \<open>get_papers_from_page\<close> is stripped
  (it has no leading and no trailing whitespace; it may be empty when it is the text of
  an author link); and where the authors block has no author link, so that the names
  come from splitting its text at the commas, every author is moreover non-empty.
\<close>

theorem authors_are_stripped:
  "(\<forall>paper \<in> set (get_papers_from_page session url). \<forall>a \<in> set (authors paper). strip a = a)
   \<and> (\<forall>a \<in> set (authors_of_div d).
         find_all (\<lambda>k. is_named ''a'' k \<and> href_search (pat_lit ''/search/'') k) d = []
         \<longrightarrow> a \<noteq> [])"
proof (intro conjI ballI impI)
  fix paper a
  assume p: "paper \<in> set (get_papers_from_page session url)" and a: "a \<in> set (authors paper)"
  from p obtain soup pd where "paper = record_of soup pd"
    by (auto simp: get_papers_from_page_def papers_of_soup_char split: option.splits)
  with a show "strip a = a" by (auto dest: record_of_authors_stripped)
next
  fix a
  assume "a \<in> set (authors_of_div d)"
    and "find_all (\<lambda>k. is_named ''a'' k \<and> href_search (pat_lit ''/search/'') k) d = []"
  then show "a \<noteq> []" by (rule authors_of_div_stripped(2))
qed


theorem authors_are_stripped_witness:
  "map authors (get_papers_from_page (\<lambda>u. Some listing_page) ''u'') = [[''Ann Lee'', ''Bo Wu'']]
   \<and> strip ''Ann Lee'' = ''Ann Lee''
   \<and> find_all (\<lambda>k. is_named ''a'' k \<and> href_search (pat_lit ''/search/'') k) plain_authors_div = []
   \<and> authors_of_div plain_authors_div = [''A. Lee'', ''B. Wu'']
   \<and> ''A. Lee'' \<noteq> []"
proof -
  let ?rec = "\<lparr>arxiv_id = Some ''2511.08583'', title = ''A Study of Robots'',
         authors = [''Ann Lee'', ''Bo Wu'']\<rparr>"
  note t = authors_are_stripped[of "\<lambda>u. Some listing_page" "''u''" plain_authors_div]
  have v: "get_papers_from_page (\<lambda>u. Some listing_page) ''u'' = [?rec]"
    by code_simp
  have f: "find_all (\<lambda>k. is_named ''a'' k \<and> href_search (pat_lit ''/search/'') k) plain_authors_div = []"
    by code_simp
  have d: "authors_of_div plain_authors_div = [''A. Lee'', ''B. Wu'']"
    by code_simp
  from t have t1: "\<forall>paper \<in> set (get_papers_from_page (\<lambda>u. Some listing_page) ''u'').
                     \<forall>a \<in> set (authors paper). strip a = a"
    by (rule conjunct1)
  have "?rec \<in> set (get_papers_from_page (\<lambda>u. Some listing_page) ''u'')"
    unfolding v by simp
  with t1 have "\<forall>a \<in> set (authors ?rec). strip a = a" by (rule bspec)
  then have s: "strip ''Ann Lee'' = ''Ann Lee''" by simp
  from t have t2: "\<forall>a \<in> set (authors_of_div plain_authors_div).
         find_all (\<lambda>k. is_named ''a'' k \<and> href_search (pat_lit ''/search/'') k) plain_authors_div = []
         \<longrightarrow> a \<noteq> []"
    by (rule conjunct2)
  have "''A. Lee'' \<in> set (authors_of_div plain_authors_div)"
    unfolding d by simp
  with t2 f have n: "''A. Lee'' \<noteq> []" by blast
  have m: "map authors (get_papers_from_page (\<lambda>u. Some listing_page) ''u'') = [[''Ann Lee'', ''Bo Wu'']]"
    unfolding v by simp
  show ?thesis by (intro conjI) (rule m s f d n)+
qed

subsection \<open>C8: the placeholder\<close>

text \<open>
  C8: take a run of the driver that ends without an exception, and an iteration of it
  (the \<open>k\<close>-th, from the state \<open>st\<close> that the iterations before it lead to) that calls
  \<open>get_abstract\<close> (the call is recorded in \<open>fetched\<close>) and gets \<open>None\<close>.  The record of
  that iteration stands in the list handed to \<open>save_to_txt\<close> at the position
  \<open>length (papers_data st)\<close>, with the placeholder as its abstract, and the digest
  written is the head, the blocks of the records before it, the block of this record
  with the placeholder under the heading of the abstract, and the blocks of the records
  after it.  The placeholder is not the empty string, and no record of the run has an
  empty abstract.
\<close>

theorem absent_abstract_gets_placeholder:
  assumes "enrich_loop session [0 ..< k]
             \<lparr>es_soup = html, papers_data = [], processed_count = 0, fetched = [], sleeps = 0\<rparr>
           = Inr st"
    and "enrich_dt session k st = Inr st'"
    and "fetched st' = fetched st @ [aid]"
    and "get_abstract session aid = None"
    and "enrich_loop session [Suc k ..< length (find_all (is_named ''dt'') html)] st' = Inr st''"
    and "k < length (find_all (is_named ''dt'') html)"
  shows "add_abstracts_to_html session html = Inr st''
         \<and> length (papers_data st) < length (papers_data st'')
         \<and> pd_abs_link (papers_data st'' ! length (papers_data st)) =
             code_points (''https://arxiv.org/abs/'' @ aid)
         \<and> pd_abstract (papers_data st'' ! length (papers_data st)) = placeholder
         \<and> placeholder \<noteq> []
         \<and> (\<forall>paper \<in> set (papers_data st''). pd_abstract paper \<noteq> [])
         \<and> save_to_txt now (papers_data st'') =
             utf8 (txt_head now (length (papers_data st'')))
             @ utf8 (txt_blocks 1 (take (length (papers_data st)) (papers_data st'')))
             @ utf8 (code_points (''['' @ str_nat (Suc (length (papers_data st))) @ ''] '')
                     @ pd_title (papers_data st'' ! length (papers_data st)) @ [0x0A]
                     @ replicate 80 0x2D @ [0x0A]
                     @ (if pd_html_link (papers_data st'' ! length (papers_data st)) \<noteq> []
                        then label_html @ pd_html_link (papers_data st'' ! length (papers_data st))
                             @ [0x0A]
                        else [])
                     @ label_abs @ code_points (''https://arxiv.org/abs/'' @ aid) @ [0x0A]
                     @ label_abstract @ placeholder @ [0x0A]
                     @ [0x0A] @ replicate 80 0x3D @ [0x0A, 0x0A])
             @ utf8 (txt_blocks (Suc (Suc (length (papers_data st))))
                       (drop (Suc (length (papers_data st))) (papers_data st'')))"
proof -
  let ?n = "length (find_all (is_named ''dt'') html)"
  let ?init = "\<lparr>es_soup = html, papers_data = [], processed_count = 0, fetched = [], sleeps = 0\<rparr>"
  let ?i = "length (papers_data st)"
  have "[0 ..< k + (?n - k)] = [0 ..< k] @ [k ..< k + (?n - k)]"
    by (rule upt_add_eq_append) simp
  moreover have "[k ..< ?n] = k # [Suc k ..< ?n]"
    using assms(6) by (rule upt_conv_Cons)
  ultimately have u: "[0 ..< ?n] = [0 ..< k] @ k # [Suc k ..< ?n]"
    using assms(6) by simp
  have run: "add_abstracts_to_html session html = Inr st''"
    unfolding add_abstracts_to_html_def u enrich_loop_append
    using assms(1,2,5) by simp
  from enrich_dt_absent_record[OF assms(2,3,4)] obtain paper where
    p1: "papers_data st' = papers_data st @ [paper]" and
    p2: "pd_abstract paper = placeholder" and
    p3: "pd_abs_link paper = code_points (''https://arxiv.org/abs/'' @ aid)" by blast
  from enrich_loop_papers[OF assms(5)] obtain ps where
    "papers_data st'' = papers_data st' @ ps" by blast
  with p1 have all: "papers_data st'' = papers_data st @ paper # ps" by simp
  have len: "?i < length (papers_data st'')" unfolding all by simp
  have nth: "papers_data st'' ! ?i = paper" unfolding all by simp
  have tk: "take ?i (papers_data st'') = papers_data st" unfolding all by simp
  have dr: "drop (Suc ?i) (papers_data st'') = ps" unfolding all by simp
  have ne: "\<forall>paper \<in> set (papers_data st''). pd_abstract paper \<noteq> []"
    using run unfolding add_abstracts_to_html_def by (rule enrich_loop_abstracts) simp
  have "txt_blocks 1 (papers_data st'') =
          txt_blocks 1 (papers_data st) @ txt_block (Suc ?i) paper @ txt_blocks (Suc (Suc ?i)) ps"
    unfolding all by (simp add: txt_blocks_append)
  then have "save_to_txt now (papers_data st'') =
          utf8 (txt_head now (length (papers_data st'')))
          @ utf8 (txt_blocks 1 (papers_data st))
          @ utf8 (txt_block (Suc ?i) paper)
          @ utf8 (txt_blocks (Suc (Suc ?i)) ps)"
    by (simp add: save_to_txt_def txt_text_def utf8_append)
  then have dig: "save_to_txt now (papers_data st'') =
          utf8 (txt_head now (length (papers_data st'')))
          @ utf8 (txt_blocks 1 (take ?i (papers_data st'')))
          @ utf8 (code_points (''['' @ str_nat (Suc ?i) @ ''] '')
                  @ pd_title (papers_data st'' ! ?i) @ [0x0A]
                  @ replicate 80 0x2D @ [0x0A]
                  @ (if pd_html_link (papers_data st'' ! ?i) \<noteq> []
                     then label_html @ pd_html_link (papers_data st'' ! ?i) @ [0x0A]
                     else [])
                  @ label_abs @ code_points (''https://arxiv.org/abs/'' @ aid) @ [0x0A]
                  @ label_abstract @ placeholder @ [0x0A]
                  @ [0x0A] @ replicate 80 0x3D @ [0x0A, 0x0A])
          @ utf8 (txt_blocks (Suc (Suc ?i)) (drop (Suc ?i) (papers_data st'')))"
    unfolding tk dr nth by (simp only: txt_block_def p2 p3)
  from run len nth p3 p2 placeholder_nonempty ne dig show ?thesis by simp
qed

theorem absent_abstract_gets_placeholder_witness:
  "enrich_loop (\<lambda>u. None) [0 ..< 2]
       \<lparr>es_soup = half_enriched_page, papers_data = [], processed_count = 0, fetched = [],
        sleeps = 0\<rparr>
     = Inr \<lparr>es_soup = half_enriched_page, papers_data = [hello_record], processed_count = 1,
            fetched = [], sleeps = 0\<rparr>
   \<and> enrich_dt (\<lambda>u. None) 2
       \<lparr>es_soup = half_enriched_page, papers_data = [hello_record], processed_count = 1,
        fetched = [], sleeps = 0\<rparr>
     = Inr \<lparr>es_soup = half_enriched_page, papers_data = [hello_record, another_record],
            processed_count = 2, fetched = [''3.4''], sleeps = 1\<rparr>
   \<and> get_abstract (\<lambda>u. None) ''3.4'' = None
   \<and> add_abstracts_to_html (\<lambda>u. None) half_enriched_page
     = Inr \<lparr>es_soup = half_enriched_page, papers_data = [hello_record, another_record],
            processed_count = 2, fetched = [''3.4''], sleeps = 1\<rparr>
   \<and> pd_abstract ([hello_record, another_record] ! 1) = placeholder
   \<and> pd_abstract hello_record \<noteq> [] \<and> pd_abstract another_record \<noteq> []
   \<and> save_to_txt ''2025-11-12 09:30:00'' [hello_record, another_record] =
       utf8 (txt_head ''2025-11-12 09:30:00'' 2)
       @ utf8 (txt_blocks 1 [hello_record])
       @ utf8 (code_points ''[2] Another paper'' @ [0x0A]
               @ replicate 80 0x2D @ [0x0A]
               @ label_html @ code_points ''https://arxiv.org/html/3.4v1'' @ [0x0A]
               @ label_abs @ code_points ''https://arxiv.org/abs/3.4'' @ [0x0A]
               @ label_abstract @ placeholder @ [0x0A]
               @ [0x0A] @ replicate 80 0x3D @ [0x0A, 0x0A])"
proof -
  let ?init = "\<lparr>es_soup = half_enriched_page, papers_data = [], processed_count = 0,
                fetched = [], sleeps = 0\<rparr>"
  let ?st = "\<lparr>es_soup = half_enriched_page, papers_data = [hello_record], processed_count = 1,
              fetched = [], sleeps = 0\<rparr>"
  let ?st' = "\<lparr>es_soup = half_enriched_page, papers_data = [hello_record, another_record],
               processed_count = 2, fetched = [''3.4''], sleeps = 1\<rparr>"
  have a: "enrich_loop (\<lambda>u. None) [0 ..< 2] ?init = Inr ?st" by code_simp
  have b: "enrich_dt (\<lambda>u. None) 2 ?st = Inr ?st'" by code_simp
  have c: "fetched ?st' = fetched ?st @ [''3.4'']" by simp
  have d: "get_abstract (\<lambda>u. None) ''3.4'' = None" by code_simp
  have n: "length (find_all (is_named ''dt'') half_enriched_page) = 3" by code_simp
  have e: "enrich_loop (\<lambda>u. None)
             [Suc 2 ..< length (find_all (is_named ''dt'') half_enriched_page)] ?st' = Inr ?st'"
    unfolding n by simp
  have k: "2 < length (find_all (is_named ''dt'') half_enriched_page)"
    unfolding n by simp
  note t = absent_abstract_gets_placeholder[of "\<lambda>u. None" 2 half_enriched_page ?st ?st' "''3.4''"
             ?st' "''2025-11-12 09:30:00''", OF a b c d e k]
  note t1 = t[THEN conjunct1]
  note t4 = t[THEN conjunct2, THEN conjunct2, THEN conjunct2, THEN conjunct1]
  note t6 = t[THEN conjunct2, THEN conjunct2, THEN conjunct2, THEN conjunct2, THEN conjunct2,
              THEN conjunct1]
  note t7 = t[THEN conjunct2, THEN conjunct2, THEN conjunct2, THEN conjunct2, THEN conjunct2,
              THEN conjunct2]
  have l: "length (papers_data ?st) = 1" "papers_data ?st' = [hello_record, another_record]"
    by simp_all
  have p: "pd_abstract ([hello_record, another_record] ! 1) = placeholder"
    using t4 unfolding l .
  have q: "pd_abstract hello_record \<noteq> [] \<and> pd_abstract another_record \<noteq> []"
    using t6 unfolding l by simp
  have v: "[hello_record, another_record] ! 1 = another_record"
    "take 1 [hello_record, another_record] = [hello_record]"
    "drop (Suc 1) [hello_record, another_record] = []"
    "length [hello_record, another_record] = 2"
    by simp_all
  have f1: "pd_title another_record = code_points ''Another paper''"
    and f2: "pd_html_link another_record = code_points ''https://arxiv.org/html/3.4v1''"
    by (simp_all add: another_record_def)
  have f3: "code_points ''https://arxiv.org/html/3.4v1'' \<noteq> []" by (simp add: code_points_def)
  have f4: "code_points (''['' @ str_nat (Suc 1) @ ''] '') @ code_points ''Another paper''
              = code_points ''[2] Another paper''"
    by code_simp
  have f5: "''https://arxiv.org/abs/'' @ ''3.4'' = ''https://arxiv.org/abs/3.4''" by simp
  have f6: "utf8 (txt_blocks (Suc (Suc 1)) []) = []" by (simp add: utf8_def)
  have s: "save_to_txt ''2025-11-12 09:30:00'' [hello_record, another_record] =
       utf8 (txt_head ''2025-11-12 09:30:00'' 2)
       @ utf8 (txt_blocks 1 [hello_record])
       @ utf8 (code_points ''[2] Another paper'' @ [0x0A]
               @ replicate 80 0x2D @ [0x0A]
               @ label_html @ code_points ''https://arxiv.org/html/3.4v1'' @ [0x0A]
               @ label_abs @ code_points ''https://arxiv.org/abs/3.4'' @ [0x0A]
               @ label_abstract @ placeholder @ [0x0A]
               @ [0x0A] @ replicate 80 0x3D @ [0x0A, 0x0A])"
    using t7 unfolding l v f1 f2 f5 f6
    by (simp only: f3 if_True not_False_eq_True f4[symmetric] append_assoc append_Nil2)
  show ?thesis by (intro conjI) (rule a b d t1 p q[THEN conjunct1] q[THEN conjunct2] s)+
qed

subsection \<open>C9: the label is deleted wherever it stands\<close>

text \<open>
  C9 fails on the code: \<open>re.sub\<close> deletes every match of \<open>Title:\s*\<close> and of
  \<open>Abstract:\s*\<close>, under \<open>re.I\<close>, not only one at the start, so label text inside
  the title or the abstract is lost.
\<close>

theorem label_deleted_inside_the_text:
  "map title (get_papers_from_page (\<lambda>u. Some subtitle_page) ''u'') = [''SubA Study'']
   \<and> get_abstract (\<lambda>u. Some inner_label_page) ''2511.08583'' = Some ''We study. Extended none''"
  by code_simp

subsection \<open>C7: where the abstract container is put\<close>

text \<open>
  C7 fails on the code when the subjects block is not a child of the metadata region but
  lies deeper in it: \<open>meta_div.find\<close> finds it, \<open>meta_div.contents.index\<close> does not,
  and the run ends in a \<open>ValueError\<close> with nothing inserted and nothing written.
\<close>

theorem nested_subjects_raise:
  "add_abstracts_to_html (\<lambda>u. Some abstract_page) nested_subjects_page = Inl ValueError"
  by code_simp

subsection \<open>C3: the driver's derivation and the Extractor's\<close>

text \<open>
  C3, as stated, gives the driver the Extractor's fallback to a descriptor span.  The
  driver has none: in \<open>fallback_title_page\<close> the Extractor yields a record and the
  driver processes no marker.
\<close>

theorem driver_has_no_fallback_counterexample:
  "get_papers_from_page (\<lambda>u. Some fallback_title_page) ''u'' =
     [\<lparr>arxiv_id = Some ''1.2'', title = ''Hello world'', authors = []\<rparr>]
   \<and> add_abstracts_to_html (\<lambda>u. None) fallback_title_page =
       Inr \<lparr>es_soup = fallback_title_page, papers_data = [], processed_count = 0,
            fetched = [], sleeps = 0\<rparr>"
  by code_simp

text \<open>
  C3, amended: for a marker with a detail element \<open>dd\<close>, the driver (\<open>derive_dt\<close>)
  processes nothing when \<open>dd\<close> has no title container; when \<open>dd\<close> has a title
  container whose normalized title has at least 5 characters, the driver processes the
  marker exactly when the Extractor yields a record for it, with the same identifier and
  the same title; and every record of \<open>extract_papers_from_html\<close> is processed by the
  driver with the same identifier, title and HTML link.
\<close>

theorem driver_derives_as_extractor:
  assumes "find_next_sibling soup p ''dd'' = Some (pdd, dd)"
  shows "(find_tag (\<lambda>k. is_named ''div'' k \<and> has_class ''list-title'' k) dd = None
            \<longrightarrow> derive_dt soup (p, dt) = None)
         \<and> (\<forall>qt title_div aid t.
               find_tag (\<lambda>k. is_named ''div'' k \<and> has_class ''list-title'' k) dd
                 = Some (qt, title_div)
               \<and> 5 \<le> length (clean_title (get_text title_div))
               \<longrightarrow> ((\<exists>hl. derive_dt soup (p, dt) = Some (aid, t, hl, pdd, dd)) \<longleftrightarrow>
                    (\<exists>paper. scrape_dt soup (p, dt) = Some paper
                       \<and> arxiv_id paper = Some aid \<and> title paper = t)))
         \<and> (\<forall>paper. extract_dt soup (p, dt) = Some paper
               \<longrightarrow> derive_dt soup (p, dt) =
                     Some (hp_arxiv_id paper, hp_title paper, hp_html_link paper, pdd, dd))"
proof (intro conjI allI impI)
  assume "find_tag (\<lambda>k. is_named ''div'' k \<and> has_class ''list-title'' k) dd = None"
  with assms show "derive_dt soup (p, dt) = None" by (rule derive_dt_no_container)
next
  fix qt title_div aid t
  assume "find_tag (\<lambda>k. is_named ''div'' k \<and> has_class ''list-title'' k) dd = Some (qt, title_div)
          \<and> 5 \<le> length (clean_title (get_text title_div))"
  then show "(\<exists>hl. derive_dt soup (p, dt) = Some (aid, t, hl, pdd, dd)) \<longleftrightarrow>
             (\<exists>paper. scrape_dt soup (p, dt) = Some paper
                \<and> arxiv_id paper = Some aid \<and> title paper = t)"
    using derive_dt_iff_scrape_dt[OF assms] by blast
next
  fix paper
  assume "extract_dt soup (p, dt) = Some paper"
  then obtain pdd' dd' where
    d: "derive_dt soup (p, dt) =
          Some (hp_arxiv_id paper, hp_title paper, hp_html_link paper, pdd', dd')"
    using extract_dt_derive_dt by blast
  then have "find_next_sibling soup p ''dd'' = Some (pdd', dd')"
    by (auto simp: derive_dt_def split: option.splits)
  with assms d show "derive_dt soup (p, dt) =
          Some (hp_arxiv_id paper, hp_title paper, hp_html_link paper, pdd, dd)"
    by simp
qed


theorem driver_derives_as_extractor_witness:
  "find_next_sibling two_markers_one_detail [0, 1] ''dd'' =
     Some ([0, 2], Tag ''dd'' [] [Tag ''div'' [(''class'', ''list-title'')]
                                   [NavigableString ''Title: Hello world'']])
   \<and> derive_dt two_markers_one_detail ([0, 1], Tag ''dt'' [] [Tag ''a'' [(''href'', ''/abs/3.4'')] []]) =
       Some (''3.4'', ''Hello world'', None, [0, 2],
             Tag ''dd'' [] [Tag ''div'' [(''class'', ''list-title'')]
                             [NavigableString ''Title: Hello world'']])
   \<and> (\<exists>paper. scrape_dt two_markers_one_detail
                  ([0, 1], Tag ''dt'' [] [Tag ''a'' [(''href'', ''/abs/3.4'')] []]) = Some paper
          \<and> arxiv_id paper = Some ''3.4'' \<and> title paper = ''Hello world'')"
proof -
  let ?dt = "Tag ''dt'' [] [Tag ''a'' [(''href'', ''/abs/3.4'')] []]"
  let ?div = "Tag ''div'' [(''class'', ''list-title'')] [NavigableString ''Title: Hello world'']"
  let ?dd = "Tag ''dd'' [] [?div]"
  have h: "find_next_sibling two_markers_one_detail [0, 1] ''dd'' = Some ([0, 2], ?dd)"
    by code_simp
  have f: "find_tag (\<lambda>k. is_named ''div'' k \<and> has_class ''list-title'' k) ?dd = Some ([0], ?div)"
    by code_simp
  have l: "5 \<le> length (clean_title (get_text ?div))"
    by code_simp
  have d: "derive_dt two_markers_one_detail ([0, 1], ?dt) =
             Some (''3.4'', ''Hello world'', None, [0, 2], ?dd)"
    by code_simp
  note t = driver_derives_as_extractor[OF h, of ?dt]
  from t have "\<forall>qt title_div aid t.
               find_tag (\<lambda>k. is_named ''div'' k \<and> has_class ''list-title'' k) ?dd
                 = Some (qt, title_div)
               \<and> 5 \<le> length (clean_title (get_text title_div))
               \<longrightarrow> ((\<exists>hl. derive_dt two_markers_one_detail ([0, 1], ?dt) = Some (aid, t, hl, [0, 2], ?dd)) \<longleftrightarrow>
                    (\<exists>paper. scrape_dt two_markers_one_detail ([0, 1], ?dt) = Some paper
                       \<and> arxiv_id paper = Some aid \<and> title paper = t))"
    by (rule conjunct2[THEN conjunct1])
  with f l have "(\<exists>hl. derive_dt two_markers_one_detail ([0, 1], ?dt)
                     = Some (''3.4'', ''Hello world'', hl, [0, 2], ?dd)) \<longleftrightarrow>
                 (\<exists>paper. scrape_dt two_markers_one_detail ([0, 1], ?dt) = Some paper
                       \<and> arxiv_id paper = Some ''3.4'' \<and> title paper = ''Hello world'')"
    by blast
  with d have s: "\<exists>paper. scrape_dt two_markers_one_detail ([0, 1], ?dt) = Some paper
                       \<and> arxiv_id paper = Some ''3.4'' \<and> title paper = ''Hello world''"
    by blast
  show ?thesis by (intro conjI) (rule h d s)+
qed

subsection \<open>C2: running the driver again\<close>

text \<open>
  C2, as stated, holds for every input document.  It fails in four ways.  When
  \<open>get_abstract\<close> returns nothing, no container is inserted (the test of line 217), and
  the second run fetches again: in the first part every request fails.  When the title
  container is the metadata region, the container of the abstract is put into it and the
  second run reads a longer title.  When a detail element lies inside another, the second
  run reads for the outer one the abstract of the inner one, which comes first in it.
  When an abstract holds a carriage return, retrieved in the first run or already in the
  document, the file read back holds a line feed in its place.
\<close>

theorem second_run_counterexample:
  "map_sum id (\<lambda>ss. (fetched (snd ss), sleeps (snd ss)))
     (run_twice (\<lambda>u. None) (\<lambda>u. None) enrich_page) = Inr ([''2511.08583''], 1)
   \<and> map_sum id (\<lambda>ss. (map pd_title (papers_data (fst ss)), map pd_title (papers_data (snd ss))))
       (run_twice (\<lambda>u. Some abstract_page) (\<lambda>u. Some abstract_page) title_in_meta_page) =
     Inr ([code_points ''A Study of Robots''],
          [code_points ''A Study of RobotsAbstract: We study robots.''])
   \<and> map_sum id (\<lambda>ss. (map pd_abstract (papers_data (fst ss)),
                        map pd_abstract (papers_data (snd ss))))
       (run_twice two_abstracts two_abstracts nested_details_page) =
     Inr ([code_points ''First abstract.'', code_points ''Second abstract.''],
          [code_points ''Second abstract.'', code_points ''Second abstract.''])
   \<and> map_sum id (\<lambda>ss. (map pd_abstract (papers_data (fst ss)),
                        map pd_abstract (papers_data (snd ss))))
       (run_twice (\<lambda>u. Some cr_abstract_page) (\<lambda>u. Some cr_abstract_page) enrich_page) =
     Inr ([code_points (''one'' @ [CHR 0x0D] @ ''two'')],
          [code_points (''one'' @ [CHR 0x0A] @ ''two'')])
   \<and> map_sum id (\<lambda>ss. (map pd_abstract (papers_data (fst ss)),
                        map pd_abstract (papers_data (snd ss))))
       (run_twice (\<lambda>u. None) (\<lambda>u. None) cr_listing_page) =
     Inr ([code_points (''one'' @ [CHR 0x0D] @ ''two'')],
          [code_points (''one'' @ [CHR 0x0A] @ ''two'')])"
  by code_simp

text \<open>
  C2, amended.  Take a first run that ends without an exception and in which every call
  of \<open>get_abstract\<close> returned a non-empty abstract.  Then the document it leaves has an
  abstract container in every detail element the driver processes (\<open>enriched\<close>), and a
  second run, on the file read back, makes no fetch call and no delay, whatever the
  network would answer, leaves the document as it is, and builds its records from the
  document alone, each abstract read from the container.  If moreover the input document
  and the abstracts returned hold no carriage return, no detail element of the input lies
  inside another, no title container is or holds a metadata region, and no abstract
  returned holds the label text \<open>Abstract:\<close> (the deletion of C9 would act on it again;
  such abstracts are set aside), then the file read back is the document the first run
  left, and the second run ends in the state the first ended in, but for the fetch calls
  and the delays: the list of records and the count are the same.
\<close>

theorem second_run_repeats_first:
  assumes "add_abstracts_to_html session html = Inr st1"
    and "\<forall>aid \<in> set (fetched st1). truthy (get_abstract session aid)"
  shows "enriched (es_soup st1)
         \<and> run_twice session session' html =
             Inr (st1,
                  \<lparr>es_soup = read_back (es_soup st1),
                   papers_data = List.map_filter (reread (read_back (es_soup st1)))
                                   (find_all (is_named ''dt'') (read_back (es_soup st1))),
                   processed_count =
                     length (List.map_filter (reread (read_back (es_soup st1)))
                                   (find_all (is_named ''dt'') (read_back (es_soup st1)))),
                   fetched = [], sleeps = 0\<rparr>)
         \<and> (no_cr html \<and> details_flat html \<and> titles_clear html
              \<and> (\<forall>aid \<in> set (fetched st1). \<forall>ab. get_abstract session aid = Some ab
                     \<longrightarrow> CHR 0x0D \<notin> set ab \<and> re_search pat_abstract ab = None)
            \<longrightarrow> read_back (es_soup st1) = es_soup st1
                \<and> run_twice session session' html = Inr (st1, st1\<lparr>fetched := [], sleeps := 0\<rparr>))"
proof -
  let ?init = "\<lparr>es_soup = html, papers_data = [], processed_count = 0, fetched = [], sleeps = 0\<rparr>"
  let ?T = "read_back (es_soup st1)"
  let ?recs = "List.map_filter (reread ?T) (find_all (is_named ''dt'') ?T)"
  let ?st2 = "\<lparr>es_soup = ?T, papers_data = ?recs, processed_count = length ?recs,
               fetched = [], sleeps = 0\<rparr>"
  have e: "enriched (es_soup st1)"
    using assms(1,2) by (rule first_run_leaves_enriched)
  then have e': "enriched ?T" by (rule enriched_read_back)
  have two: "run_twice session session' html = Inr (st1, ?st2)"
    by (simp add: run_twice_def assms(1) add_abstracts_reentrant[OF e', of session'])
  have l: "enrich_loop session [0 ..< length (find_all (is_named ''dt'') html)] ?init = Inr st1"
    using assms(1) by (simp add: add_abstracts_to_html_def)
  have same: "read_back (es_soup st1) = es_soup st1
                \<and> run_twice session session' html = Inr (st1, st1\<lparr>fetched := [], sleeps := 0\<rparr>)"
    if h: "no_cr html \<and> details_flat html \<and> titles_clear html
              \<and> (\<forall>aid \<in> set (fetched st1). \<forall>ab. get_abstract session aid = Some ab
                     \<longrightarrow> CHR 0x0D \<notin> set ab \<and> re_search pat_abstract ab = None)"
  proof -
    from h have nc: "no_cr html" and fl: "details_flat html" and cl: "titles_clear html"
      and cr: "\<forall>aid \<in> set (fetched st1). \<forall>ab. get_abstract session aid = Some ab
                     \<longrightarrow> CHR 0x0D \<notin> set ab"
      and lf: "\<forall>aid \<in> set (fetched st1). \<forall>ab. get_abstract session aid = Some ab
                     \<longrightarrow> re_search pat_abstract ab = None" by blast+
    have "no_cr (es_soup st1)"
      using l _ cr by (rule enrich_loop_no_cr) (simp add: nc)
    then have rb: "read_back (es_soup st1) = es_soup st1" by (rule read_back_id)
    have r: "papers_data st1 =
               List.map_filter (reread (es_soup st1)) (find_all (is_named ''dt'') (es_soup st1))"
      using assms(1,2) lf fl cl by (rule first_run_records)
    have c: "processed_count st1 = length (papers_data st1)"
      using l by (rule enrich_loop_count) simp
    have "st1\<lparr>fetched := [], sleeps := 0\<rparr> = ?st2"
      unfolding rb using r c by (cases st1) simp
    with two rb show ?thesis by simp
  qed
  from e two same show ?thesis by blast
qed

theorem second_run_repeats_first_witness:
  "add_abstracts_to_html (\<lambda>u. Some abstract_page) enrich_page
     = Inr \<lparr>es_soup = enriched_page, papers_data = [enriched_record], processed_count = 1,
            fetched = [''2511.08583''], sleeps = 1\<rparr>
   \<and> get_abstract (\<lambda>u. Some abstract_page) ''2511.08583'' = Some ''We study robots.''
   \<and> no_cr enrich_page \<and> details_flat enrich_page \<and> titles_clear enrich_page
   \<and> re_search pat_abstract ''We study robots.'' = None
   \<and> enriched enriched_page
   \<and> read_back enriched_page = enriched_page
   \<and> run_twice (\<lambda>u. Some abstract_page) (\<lambda>u. None) enrich_page
     = Inr (\<lparr>es_soup = enriched_page, papers_data = [enriched_record], processed_count = 1,
             fetched = [''2511.08583''], sleeps = 1\<rparr>,
            \<lparr>es_soup = enriched_page, papers_data = [enriched_record], processed_count = 1,
             fetched = [], sleeps = 0\<rparr>)"
proof -
  let ?s = "\<lambda>u. Some abstract_page"
  let ?st1 = "\<lparr>es_soup = enriched_page, papers_data = [enriched_record], processed_count = 1,
            fetched = [''2511.08583''], sleeps = 1\<rparr>"
  have r: "add_abstracts_to_html ?s enrich_page = Inr ?st1" by code_simp
  have g: "get_abstract ?s ''2511.08583'' = Some ''We study robots.''" by code_simp
  have n: "no_cr enrich_page" by code_simp
  have f: "details_flat enrich_page" by code_simp
  have c: "titles_clear enrich_page" by code_simp
  have l: "re_search pat_abstract ''We study robots.'' = None" by code_simp
  have h1: "\<forall>aid \<in> set (fetched ?st1). truthy (get_abstract ?s aid)"
    using g by simp
  have h2: "\<forall>aid \<in> set (fetched ?st1). \<forall>ab. get_abstract ?s aid = Some ab
              \<longrightarrow> CHR 0x0D \<notin> set ab \<and> re_search pat_abstract ab = None"
    using g l by simp
  note t = second_run_repeats_first[OF r h1, of "\<lambda>u. None"]
  have e: "enriched enriched_page" using t[THEN conjunct1] by simp
  from t[THEN conjunct2, THEN conjunct2] n f c h2
  have b: "read_back (es_soup ?st1) = es_soup ?st1"
    and "run_twice ?s (\<lambda>u. None) enrich_page = Inr (?st1, ?st1\<lparr>fetched := [], sleeps := 0\<rparr>)"
    by blast+
  then have w: "run_twice ?s (\<lambda>u. None) enrich_page
     = Inr (?st1, \<lparr>es_soup = enriched_page, papers_data = [enriched_record], processed_count = 1,
             fetched = [], sleeps = 0\<rparr>)"
    by simp
  from b have b': "read_back enriched_page = enriched_page" by simp
  show ?thesis by (intro conjI) (rule r g n f c l e b' w)+
qed

end
